theory Spec2Isabelle
  imports Complex_Main "HOL-Library.Word"
begin

text \<open>
  A model of the mail rewriting and reply classification of SendEML (\<^verbatim>\<open>sendeml.ts\<close>):
  splitting a raw mail at its empty line, decomposing the header into physical lines,
  replacing the Date and Message-ID lines, and recognising the last line of an SMTP
  reply. Each function of the program is a function of the same name here. The first
  sections are the model, the later ones its properties.
\<close>

section \<open>Byte buffers and the array primitives of the runtime\<close>

text \<open>
  A \<^verbatim>\<open>Uint8Array\<close> is a list of bytes. Offsets are numbers of the source language, so
  they are integers here and the sentinel \<open>-1\<close> of a failed search is kept as it is.
\<close>

type_synonym byte = "8 word"
type_synonym bytes = "byte list"

definition CR :: byte where "CR = 13"
definition LF :: byte where "LF = 10"
definition SPACE :: byte where "SPACE = 32"
definition HTAB :: byte where "HTAB = 9"

text \<open>
  Index arguments of \<^verbatim>\<open>slice\<close> and \<^verbatim>\<open>indexOf\<close>: a negative index counts from the end,
  and everything is clamped to the range of the array.
\<close>

definition relIndex :: "nat \<Rightarrow> int \<Rightarrow> nat" where
  "relIndex len i = (if i < 0 then nat (max (int len + i) 0) else min (nat i) len)"

definition slice :: "'a list \<Rightarrow> int \<Rightarrow> int \<Rightarrow> 'a list" where
  "slice xs start fin =
     (let k = relIndex (length xs) start; f = relIndex (length xs) fin
      in take (f - k) (drop k xs))"

definition sliceFrom :: "'a list \<Rightarrow> int \<Rightarrow> 'a list" where
  "sliceFrom xs start = slice xs start (int (length xs))"

text \<open>Reading \<^verbatim>\<open>xs[i]\<close>: out of range the source gets \<^verbatim>\<open>undefined\<close>, here \<open>None\<close>.\<close>

definition elemAt :: "'a list \<Rightarrow> int \<Rightarrow> 'a option" where
  "elemAt xs i = (if 0 \<le> i \<and> i < int (length xs) then Some (xs ! nat i) else None)"

primrec indexOfAux :: "'a \<Rightarrow> 'a list \<Rightarrow> nat \<Rightarrow> int" where
  "indexOfAux v [] k = -1"
| "indexOfAux v (x # xs) k = (if x = v then int k else indexOfAux v xs (Suc k))"

definition indexOf :: "'a list \<Rightarrow> 'a \<Rightarrow> int \<Rightarrow> int" where
  "indexOf buf v fromIndex = (let k = relIndex (length buf) fromIndex in indexOfAux v (drop k buf) k)"

primrec findIndexAux :: "('a \<Rightarrow> bool) \<Rightarrow> 'a list \<Rightarrow> nat \<Rightarrow> int" where
  "findIndexAux p [] k = -1"
| "findIndexAux p (x # xs) k = (if p x then int k else findIndexAux p xs (Suc k))"

definition findIndex :: "('a \<Rightarrow> bool) \<Rightarrow> 'a list \<Rightarrow> int" where
  "findIndex p xs = findIndexAux p xs 0"

section \<open>Line decomposition\<close>

definition findCrIndex :: "bytes \<Rightarrow> int \<Rightarrow> int" where
  "findCrIndex buf offset = indexOf buf CR offset"

definition findLfIndex :: "bytes \<Rightarrow> int \<Rightarrow> int" where
  "findLfIndex buf offset = indexOf buf LF offset"

lemma indexOfAux_range:
  "indexOfAux v xs k = -1 \<or> (int k \<le> indexOfAux v xs k \<and> indexOfAux v xs k < int k + int (length xs))"
  by (induction xs arbitrary: k) force+

lemma indexOf_range:
  assumes "indexOf buf v off \<noteq> -1"
  shows "off \<le> indexOf buf v off" and "0 \<le> indexOf buf v off"
    and "indexOf buf v off < int (length buf)"
  using assms indexOfAux_range [of v "drop (relIndex (length buf) off) buf" "relIndex (length buf) off"]
  by (auto simp: indexOf_def relIndex_def Let_def min_def split: if_splits)

function findAllLfLoop :: "bytes \<Rightarrow> int list \<Rightarrow> int \<Rightarrow> int list" where
  "findAllLfLoop buf indices offset =
     (let idx = findLfIndex buf offset
      in if idx = -1 then indices else findAllLfLoop buf (indices @ [idx]) (idx + 1))"
  by pat_completeness auto
termination
proof (relation "measure (\<lambda>(buf, indices, offset). nat (int (length buf) - offset))")
  show "wf (measure (\<lambda>(buf, indices, offset). nat (int (length buf) - offset)))" by simp
next
  fix buf :: bytes and indices :: "int list" and offset idx :: int
  assume "idx = findLfIndex buf offset" and "idx \<noteq> -1"
  then show "((buf, indices @ [idx], idx + 1), (buf, indices, offset))
      \<in> measure (\<lambda>(buf, indices, offset). nat (int (length buf) - offset))"
    using indexOf_range [of buf LF offset] by (simp add: findLfIndex_def)
qed

definition findAllLfIndices :: "bytes \<Rightarrow> int list" where
  "findAllLfIndices buf = findAllLfLoop buf [] 0"

text \<open>
  \<^verbatim>\<open>getRawLines\<close> maps over the boundaries with a variable \<^verbatim>\<open>offset\<close> that each step
  updates; the variable is the second argument of \<open>mapLines\<close>.
\<close>

primrec mapLines :: "bytes \<Rightarrow> int \<Rightarrow> int list \<Rightarrow> bytes list" where
  "mapLines bs offset [] = []"
| "mapLines bs offset (i # is) = slice bs offset (i + 1) # mapLines bs (i + 1) is"

definition getRawLines :: "bytes \<Rightarrow> bytes list" where
  "getRawLines bs = mapLines bs 0 (findAllLfIndices bs @ [int (length bs) - 1])"

text \<open>
  \<^verbatim>\<open>concatBytes\<close> allocates a zeroed buffer of the total length and copies each part in
  at a running offset (\<^verbatim>\<open>buf.set(b, offset)\<close>).
\<close>

definition setAt :: "bytes \<Rightarrow> bytes \<Rightarrow> nat \<Rightarrow> bytes" where
  "setAt buf b offset = take offset buf @ b @ drop (offset + length b) buf"

definition concatBytes :: "bytes list \<Rightarrow> bytes" where
  "concatBytes bytesArray =
     fst (foldl (\<lambda>(buf, offset) b. (setAt buf b offset, offset + length b))
            (replicate (foldl (\<lambda>acc b. acc + length b) 0 bytesArray) 0, 0) bytesArray)"


section \<open>Errors, strings and numbers of the runtime\<close>

text \<open>
  A \<^verbatim>\<open>throw new Error(msg)\<close> is the left injection of a sum; \<open>bindE\<close> passes it on as an
  exception propagates through a call.
\<close>

datatype error = Error string

definition bindE :: "error + 'a \<Rightarrow> ('a \<Rightarrow> error + 'b) \<Rightarrow> error + 'b" where
  "bindE m f = (case m of Inl e \<Rightarrow> Inl e | Inr x \<Rightarrow> f x)"

text \<open>
  \<^verbatim>\<open>TextEncoder.encode\<close> is UTF-8: a character below 128 is one byte, a character of the
  range 128 to 255 is two.
\<close>

definition encodeChar :: "char \<Rightarrow> bytes" where
  "encodeChar c =
     (let n = (of_char c :: nat)
      in if n < 128 then [of_nat n] else [of_nat (192 + n div 64), of_nat (128 + n mod 64)])"

definition encode :: "string \<Rightarrow> bytes" where
  "encode s = concat (map encodeChar s)"

definition DATE_BYTES :: bytes where "DATE_BYTES = encode ''Date:''"
definition MESSAGE_ID_BYTES :: bytes where "MESSAGE_ID_BYTES = encode ''Message-ID:''"

definition CRLF :: string where "CRLF = [CHR 0x0D, CHR 0x0A]"

text \<open>
  Decimal rendering of a whole number, as string concatenation with a number gives for
  numbers below 10^21 in magnitude.
\<close>

definition digitChar :: "nat \<Rightarrow> char" where
  "digitChar n = char_of (48 + n)"

fun digitsOf :: "nat \<Rightarrow> string" where
  "digitsOf n = (if n < 10 then [digitChar n] else digitsOf (n div 10) @ [digitChar (n mod 10)])"

definition intToString :: "int \<Rightarrow> string" where
  "intToString i = (if i < 0 then CHR ''-'' # digitsOf (nat (- i)) else digitsOf (nat i))"

text \<open>
  The runtime a call depends on: the fields of \<^verbatim>\<open>new Date\<close>; the rendering of a number
  that does not print as a plain decimal integer, because it is not whole (the quotient
  \<^verbatim>\<open>offset / 60\<close> can be such) or is 10^21 or more in magnitude; and the random draws:
  \<open>randomFloor rt k n\<close> is what \<^verbatim>\<open>Math.floor(Math.random() * n)\<close> gives at the \<open>k\<close>-th draw,
  the floating-point product and its floor being the runtime's.
\<close>

record date_obj =
  getDay :: int
  getDate :: int
  getMonth :: int
  getFullYear :: int
  getHours :: int
  getMinutes :: int
  getSeconds :: int
  getTimezoneOffset :: int

record runtime =
  now :: date_obj
  fmtOther :: "rat \<Rightarrow> string"
  randomFloor :: "nat \<Rightarrow> nat \<Rightarrow> int"

definition numberToString :: "runtime \<Rightarrow> rat \<Rightarrow> string" where
  "numberToString rt q =
     (if q = of_int \<lfloor>q\<rfloor> \<and> \<bar>q\<bar> < 10 ^ 21 then intToString \<lfloor>q\<rfloor> else fmtOther rt q)"

text \<open>The remainder operator \<^verbatim>\<open>%\<close> truncates towards zero: the sign is the dividend's.\<close>

definition jsRem :: "int \<Rightarrow> int \<Rightarrow> int" where
  "jsRem a b = sgn a * (\<bar>a\<bar> mod \<bar>b\<bar>)"

text \<open>An array element inside a template literal; a missing one prints as \<^verbatim>\<open>undefined\<close>.\<close>

definition showElem :: "string option \<Rightarrow> string" where
  "showElem x = (case x of None \<Rightarrow> ''undefined'' | Some s \<Rightarrow> s)"

definition charAt :: "'a list \<Rightarrow> int \<Rightarrow> 'a list" where
  "charAt s i = (case elemAt s i of None \<Rightarrow> [] | Some c \<Rightarrow> [c])"

section \<open>Header field matching and line generators\<close>

definition isNotUpdate :: "bool \<Rightarrow> bool \<Rightarrow> bool" where
  "isNotUpdate updateDate updateMessageId = (\<not> updateDate \<and> \<not> updateMessageId)"

definition matchHeader :: "bytes \<Rightarrow> bytes \<Rightarrow> error + bool" where
  "matchHeader line header =
     (if length header = 0 then Inl (Error ''header is empty'')
      else if length line < length header then Inr False
      else Inr (list_all (\<lambda>(i, v). Some v = elemAt line (int i)) (enumerate 0 header)))"

definition isDateLine :: "bytes \<Rightarrow> error + bool" where
  "isDateLine line = matchHeader line DATE_BYTES"

definition isMessageIdLine :: "bytes \<Rightarrow> error + bool" where
  "isMessageIdLine line = matchHeader line MESSAGE_ID_BYTES"

definition lzero :: "runtime \<Rightarrow> rat \<Rightarrow> string" where
  "lzero rt n = sliceFrom (''0'' @ numberToString rt n) (- 2)"

definition dayNames :: "string list" where
  "dayNames = [''Sun'', ''Mon'', ''Tue'', ''Wed'', ''Thu'', ''Fri'', ''Sat'']"

definition monthNames :: "string list" where
  "monthNames = [''Jan'', ''Feb'', ''Mar'', ''Apr'', ''May'', ''Jun'',
                 ''Jul'', ''Aug'', ''Sep'', ''Oct'', ''Nov'', ''Dec'']"

definition makeNowDateLine :: "runtime \<Rightarrow> string" where
  "makeNowDateLine rt =
     (let obj = now rt;
          day = showElem (elemAt dayNames (getDay obj));
          date = lzero rt (of_int (getDate obj));
          month = showElem (elemAt monthNames (getMonth obj));
          year = numberToString rt (of_int (getFullYear obj));
          hours = lzero rt (of_int (getHours obj));
          minutes = lzero rt (of_int (getMinutes obj));
          seconds = lzero rt (of_int (getSeconds obj));
          offset = - getTimezoneOffset obj;
          timezone = lzero rt (of_int offset / 60) @ lzero rt (of_int (jsRem offset 60))
      in ''Date: '' @ day @ '', '' @ date @ '' '' @ month @ '' '' @ year @ '' ''
           @ hours @ '':'' @ minutes @ '':'' @ seconds @ '' +'' @ timezone @ CRLF)"

definition alphabet :: string where
  "alphabet = ''abcdefghijklmnopqrstuvwxyzABCDEFGHIJKLMNOPQRSTUVWXYZ0123456789''"

definition makeRandomMessageIdLine :: "runtime \<Rightarrow> string" where
  "makeRandomMessageIdLine rt =
     (let s = alphabet;
          randStr = concat (map (\<lambda>k. charAt s (randomFloor rt k (length s))) [0..<62])
      in ''Message-ID: <'' @ randStr @ ''>'' @ CRLF)"

section \<open>Folded lines and the header rewrite\<close>

definition isWsp :: "byte \<Rightarrow> bool" where
  "isWsp b = (b = SPACE \<or> b = HTAB)"

definition isFoldedLine :: "bytes \<Rightarrow> bool" where
  "isFoldedLine bs = isWsp (case elemAt bs 0 of None \<Rightarrow> 0 | Some b \<Rightarrow> b)"

definition dropFoldedLine :: "bytes list \<Rightarrow> bytes list" where
  "dropFoldedLine lines =
     (let idx = findIndex (\<lambda>l. \<not> isFoldedLine l) lines
      in if idx \<le> 0 then lines else sliceFrom lines idx)"

text \<open>\<^verbatim>\<open>findIndex\<close> with a predicate that can throw.\<close>

primrec findIndexE :: "('a \<Rightarrow> error + bool) \<Rightarrow> 'a list \<Rightarrow> nat \<Rightarrow> error + int" where
  "findIndexE p [] k = Inr (- 1)"
| "findIndexE p (x # xs) k =
     (case p x of Inl e \<Rightarrow> Inl e
      | Inr b \<Rightarrow> if b then Inr (int k) else findIndexE p xs (Suc k))"

definition replaceLine ::
  "bytes list \<Rightarrow> (bytes \<Rightarrow> error + bool) \<Rightarrow> (unit \<Rightarrow> string) \<Rightarrow> error + bytes list" where
  "replaceLine lines matchLine makeLine =
     bindE (findIndexE matchLine lines 0) (\<lambda>idx.
       if idx = - 1 then Inr lines
       else let p1 = slice lines 0 idx;
                p2 = encode (makeLine ());
                p3 = dropFoldedLine (sliceFrom lines (idx + 1))
            in Inr (p1 @ [p2] @ p3))"

definition replaceDateLine :: "runtime \<Rightarrow> bytes list \<Rightarrow> error + bytes list" where
  "replaceDateLine rt lines = replaceLine lines isDateLine (\<lambda>_. makeNowDateLine rt)"

definition replaceMessageIdLine :: "runtime \<Rightarrow> bytes list \<Rightarrow> error + bytes list" where
  "replaceMessageIdLine rt lines =
     replaceLine lines isMessageIdLine (\<lambda>_. makeRandomMessageIdLine rt)"

definition replaceHeader :: "runtime \<Rightarrow> bytes \<Rightarrow> bool \<Rightarrow> bool \<Rightarrow> error + bytes" where
  "replaceHeader rt header updateDate updateMessageId =
     (let lines = getRawLines header;
          d = updateDate; m = updateMessageId;
          newLines =
            (if d \<and> m then bindE (replaceDateLine rt lines) (replaceMessageIdLine rt)
             else if d \<and> \<not> m then replaceDateLine rt lines
             else if \<not> d \<and> m then replaceMessageIdLine rt lines
             else Inr lines)
      in bindE newLines (\<lambda>ls. Inr (concatBytes ls)))"

section \<open>Splitting and combining a mail\<close>

definition EMPTY_LINE :: bytes where
  "EMPTY_LINE = [CR, LF, CR, LF]"

definition combineMail :: "bytes \<Rightarrow> bytes \<Rightarrow> bytes" where
  "combineMail header body = concatBytes [header, EMPTY_LINE, body]"

function findEmptyLineFrom :: "bytes \<Rightarrow> int \<Rightarrow> int" where
  "findEmptyLineFrom bs offset =
     (let idx = findCrIndex bs offset
      in if idx = - 1 \<or> idx + 3 \<ge> int (length bs) then - 1
         else if elemAt bs (idx + 1) = Some LF \<and> elemAt bs (idx + 2) = Some CR \<and> elemAt bs (idx + 3) = Some LF
              then idx
              else findEmptyLineFrom bs (idx + 1))"
  by pat_completeness auto
termination
proof (relation "measure (\<lambda>(bs, offset). nat (int (length bs) - offset))")
  show "wf (measure (\<lambda>(bs, offset). nat (int (length bs) - offset)))" by simp
next
  fix bs :: bytes and offset idx :: int
  assume "idx = findCrIndex bs offset" and "\<not> (idx = - 1 \<or> int (length bs) \<le> idx + 3)"
  then show "((bs, idx + 1), (bs, offset)) \<in> measure (\<lambda>(bs, offset). nat (int (length bs) - offset))"
    using indexOf_range [of bs CR offset] by (simp add: findCrIndex_def)
qed

definition findEmptyLine :: "bytes \<Rightarrow> int" where
  "findEmptyLine bs = findEmptyLineFrom bs 0"

text \<open>The result objects \<^verbatim>\<open>{ok: boolean, res?: T}\<close>.\<close>

record 'a result =
  ok :: bool
  res :: "'a option"

definition splitMail :: "bytes \<Rightarrow> (bytes \<times> bytes) result" where
  "splitMail bs =
     (let idx = findEmptyLine bs
      in if idx = - 1 then \<lparr>ok = False, res = None\<rparr>
         else let header = slice bs 0 idx;
                  body = slice bs (idx + int (length EMPTY_LINE)) (int (length bs))
              in \<lparr>ok = True, res = Some (header, body)\<rparr>)"

text \<open>
  \<^verbatim>\<open>replaceMail\<close> either hands back the very object it was given or builds a new one, so
  at this level a buffer is an object: its identity (an address) and its contents. The
  argument \<open>fresh\<close> is the address the allocator gives to the array that
  \<^verbatim>\<open>combineMail\<close> creates for the result.
\<close>

record buffer =
  address :: nat
  contents :: bytes

definition replaceMail ::
  "runtime \<Rightarrow> nat \<Rightarrow> buffer \<Rightarrow> bool \<Rightarrow> bool \<Rightarrow> error + buffer result" where
  "replaceMail rt fresh bs updateDate updateMessageId =
     (if isNotUpdate updateDate updateMessageId then Inr \<lparr>ok = True, res = Some bs\<rparr>
      else let mail = splitMail (contents bs)
           in if \<not> ok mail then Inr \<lparr>ok = False, res = None\<rparr>
              else case res mail of
                     None \<Rightarrow> Inl (Error ''undefined is not iterable'')
                   | Some (header, body) \<Rightarrow>
                       bindE (replaceHeader rt header updateDate updateMessageId) (\<lambda>replHeader.
                         Inr \<lparr>ok = True,
                              res = Some \<lparr>address = fresh,
                                           contents = combineMail replHeader body\<rparr>\<rparr>))"

section \<open>Reply classification\<close>

text \<open>
  A reply line is a string of the runtime: a list of UTF-16 code units. \<open>utf16\<close> gives
  the code units of a literal whose characters are below 256.
\<close>

type_synonym jschar = "16 word"

definition utf16 :: "string \<Rightarrow> jschar list" where
  "utf16 s = map (\<lambda>c. of_nat (of_char c)) s"

text \<open>
  The fragment of regular expressions the reply pattern uses: a pattern is anchored at
  the start of the string (\<^verbatim>\<open>^\<close>) and is a sequence of pieces, each an atom repeated a
  fixed number of times or at least once. \<^verbatim>\<open>test\<close> asks whether some prefix of the
  string matches. A digit is one of the ten characters 0 to 9. The dot matches any
  character but the four line terminators: LF, CR, U+2028 and U+2029.
\<close>

datatype atom = Digit | Lit jschar | AnyChar

datatype piece = Times nat atom | Plus atom

fun atomMatches :: "atom \<Rightarrow> jschar \<Rightarrow> bool" where
  "atomMatches Digit c = (c \<in> set (utf16 ''0123456789''))"
| "atomMatches (Lit a) c = (c = a)"
| "atomMatches AnyChar c = (c \<notin> {0x0A, 0x0D, 0x2028, 0x2029})"

fun test :: "piece list \<Rightarrow> jschar list \<Rightarrow> bool" where
  "test [] s = True"
| "test (Times 0 a # ps) s = test ps s"
| "test (Times (Suc n) a # ps) [] = False"
| "test (Times (Suc n) a # ps) (c # s) = (atomMatches a c \<and> test (Times n a # ps) s)"
| "test (Plus a # ps) [] = False"
| "test (Plus a # ps) (c # s) = (atomMatches a c \<and> (test (Plus a # ps) s \<or> test ps s))"

definition LAST_REPLY_REGEX :: "piece list" where
  "LAST_REPLY_REGEX = [Times 3 Digit, Times 1 (Lit 0x20), Plus AnyChar]"

definition isLastReply :: "jschar list \<Rightarrow> bool" where
  "isLastReply line = test LAST_REPLY_REGEX line"

definition isPositiveReply :: "jschar list \<Rightarrow> bool" where
  "isPositiveReply line =
     (let first = charAt line 0 in first = utf16 ''2'' \<or> first = utf16 ''3'')"

section \<open>The time zone token\<close>

text \<open>
  The revision of the program that has \<^verbatim>\<open>padZero2\<close> and \<^verbatim>\<open>makeTimeZoneOffset\<close> builds the
  Date line from them; its generator is \<open>makeNowDateLineTz\<close> here. The offset is the
  whole number of minutes that \<^verbatim>\<open>getTimezoneOffset\<close> returns.
\<close>

definition padZero2 :: "int \<Rightarrow> error + string" where
  "padZero2 n =
     (if n < 0 \<or> n > 99 then Inl (Error ''invalid number'')
      else Inr (sliceFrom (''0'' @ intToString n) (- 2)))"

definition makeTimeZoneOffset :: "int \<Rightarrow> error + string" where
  "makeTimeZoneOffset mins =
     (if mins < - 840 \<or> mins > 720 then Inl (Error ''invalid number'')
      else bindE (padZero2 (\<bar>mins\<bar> div 60)) (\<lambda>first.
           bindE (padZero2 (\<bar>mins\<bar> mod 60)) (\<lambda>last.
           Inr ((if mins \<le> 0 then ''+'' else ''-'') @ first @ last))))"

definition makeNowDateLineTz :: "date_obj \<Rightarrow> error + string" where
  "makeNowDateLineTz obj =
     (let day = showElem (elemAt dayNames (getDay obj)) in
      bindE (padZero2 (getDate obj)) (\<lambda>date.
      let month = showElem (elemAt monthNames (getMonth obj));
          year = intToString (getFullYear obj) in
      bindE (padZero2 (getHours obj)) (\<lambda>hours.
      bindE (padZero2 (getMinutes obj)) (\<lambda>minutes.
      bindE (padZero2 (getSeconds obj)) (\<lambda>seconds.
      bindE (makeTimeZoneOffset (getTimezoneOffset obj)) (\<lambda>zone.
      Inr (''Date: '' @ day @ '', '' @ date @ '' '' @ month @ '' '' @ year @ '' ''
             @ hours @ '':'' @ minutes @ '':'' @ seconds @ '' '' @ zone @ CRLF)))))))"


section \<open>Physical lines, as a recursion over the buffer\<close>

text \<open>
  A reading of the line decomposition without offsets: the buffer is cut after every LF,
  and what follows the last LF (possibly nothing) is the final line. It is used to
  reason about \<open>getRawLines\<close>, which is shown below to compute it.
\<close>

primrec linesAcc :: "bytes \<Rightarrow> bytes \<Rightarrow> bytes list" where
  "linesAcc cur [] = [cur]"
| "linesAcc cur (b # bs) = (if b = LF then (cur @ [b]) # linesAcc [] bs else linesAcc (cur @ [b]) bs)"

section \<open>A sample runtime\<close>

text \<open>
  A runtime to run the program on: Tuesday 3 November 2026, 09:05:59, nine hours ahead
  of UTC.
\<close>

definition sampleDate :: date_obj where
  "sampleDate = \<lparr>getDay = 2, getDate = 3, getMonth = 10, getFullYear = 2026, getHours = 9,
     getMinutes = 5, getSeconds = 59, getTimezoneOffset = - 540\<rparr>"

definition sampleRuntime :: runtime where
  "sampleRuntime = \<lparr>now = sampleDate, fmtOther = (\<lambda>q. ''0.5''),
     randomFloor = (\<lambda>k n. if even k then 0 else int n div 2)\<rparr>"

section \<open>Occurrences of the empty line\<close>

text \<open>
  \<open>hasEmptyLine bs\<close>: the four bytes CR, LF, CR, LF occur somewhere in \<open>bs\<close>;
  \<open>matchAt bs j\<close>: they occur at offset \<open>j\<close>.
\<close>

fun hasEmptyLine :: "bytes \<Rightarrow> bool" where
  "hasEmptyLine [] = False"
| "hasEmptyLine (x # xs) = (take 4 (x # xs) = EMPTY_LINE \<or> hasEmptyLine xs)"

definition matchAt :: "bytes \<Rightarrow> nat \<Rightarrow> bool" where
  "matchAt bs j = (take 4 (drop j bs) = EMPTY_LINE)"

section \<open>Fields of a header\<close>

text \<open>
  The notions the properties of the header rewrite are stated with. A line begins with a
  field name when the name is a prefix of it. The physical lines of a buffer are those of
  its line decomposition. The field that a predicate selects in a list of lines is the
  first line satisfying it together with the folded lines that follow it directly.
\<close>

definition startsWith :: "bytes \<Rightarrow> bytes \<Rightarrow> bool" where
  "startsWith name line = (take (length name) line = name)"

definition dateLine :: "bytes \<Rightarrow> bool" where
  "dateLine line = startsWith DATE_BYTES line"

definition messageIdLine :: "bytes \<Rightarrow> bool" where
  "messageIdLine line = startsWith MESSAGE_ID_BYTES line"

definition physicalLines :: "(bytes \<Rightarrow> bool) \<Rightarrow> bytes \<Rightarrow> bytes list" where
  "physicalLines q bs = filter q (getRawLines bs)"

definition fieldOf :: "(bytes \<Rightarrow> bool) \<Rightarrow> bytes list \<Rightarrow> bytes list option" where
  "fieldOf q lines =
     (case dropWhile (\<lambda>l. \<not> q l) lines of
        [] \<Rightarrow> None
      | l # rest \<Rightarrow> Some (l # takeWhile isFoldedLine rest))"

definition fieldIn :: "(bytes \<Rightarrow> bool) \<Rightarrow> bytes \<Rightarrow> bytes list option" where
  "fieldIn q bs = fieldOf q (getRawLines bs)"

text \<open>\<open>firstReplaced n ls\<close>: the list \<open>ls\<close> with its first element, if any, replaced by \<open>n\<close>.\<close>

definition firstReplaced :: "bytes \<Rightarrow> bytes list \<Rightarrow> bytes list" where
  "firstReplaced n ls = (case ls of [] \<Rightarrow> [] | l # rest \<Rightarrow> n # rest)"

text \<open>
  A terminated line ends with its only LF. In a list of physical lines every line but the
  last is terminated, and the last is terminated or holds no LF.
\<close>

definition terminated :: "bytes \<Rightarrow> bool" where
  "terminated l = (\<exists>b. l = b @ [LF] \<and> LF \<notin> set b)"

fun lineList :: "bytes list \<Rightarrow> bool" where
  "lineList [] = True"
| "lineList [l] = (terminated l \<or> LF \<notin> set l)"
| "lineList (l # l' # ls) = (terminated l \<and> lineList (l' # ls))"

text \<open>
  The runtime's rendering of a number that is not a plain decimal integer never holds a
  line feed: number formatting yields digits, a sign, a point and an exponent only.
\<close>

definition plainFormat :: "runtime \<Rightarrow> bool" where
  "plainFormat rt = (\<forall>q. CHR 0x0A \<notin> set (fmtOther rt q))"

text \<open>A header with a folded Date field, a Message-ID field and one more field.\<close>

definition sampleHeader :: bytes where
  "sampleHeader = encode ''Date:'' @ [CR, LF] @ encode '' Sun, 26 Jul 2020'' @ [CR, LF]
     @ encode ''Message-ID: <b0e5@ah62.example.jp>'' @ [CR, LF] @ encode ''To: a002@ah62.example.jp''"

section \<open>Two-digit fields\<close>

text \<open>A number below 100 as two decimal digits, the first of them 0 below 10.\<close>

definition twoDigits :: "nat \<Rightarrow> string" where
  "twoDigits n = [digitChar (n div 10), digitChar (n mod 10)]"

declare findAllLfLoop.simps [simp del]
declare digitsOf.simps [simp del]
declare findEmptyLineFrom.simps [simp del]

section \<open>The line decomposition loses nothing\<close>


lemma concat_linesAcc: "concat (linesAcc cur bs) = cur @ bs"
  by (induction bs arbitrary: cur) auto

lemma linesAcc_noLf: "LF \<notin> set xs \<Longrightarrow> linesAcc cur xs = [cur @ xs]"
  by (induction xs arbitrary: cur) auto

lemma linesAcc_Lf:
  "LF \<in> set xs \<Longrightarrow>
   linesAcc cur xs = (cur @ takeWhile (\<lambda>b. b \<noteq> LF) xs @ [LF]) # linesAcc [] (tl (dropWhile (\<lambda>b. b \<noteq> LF) xs))"
  by (induction xs arbitrary: cur) auto

lemma indexOfAux_none: "v \<notin> set xs \<Longrightarrow> indexOfAux v xs k = -1"
  by (induction xs arbitrary: k) auto

lemma indexOfAux_some:
  "v \<in> set xs \<Longrightarrow> indexOfAux v xs k = int k + int (length (takeWhile (\<lambda>b. b \<noteq> v) xs))"
  by (induction xs arbitrary: k) auto

lemma takeWhile_neq_less: "v \<in> set xs \<Longrightarrow> length (takeWhile (\<lambda>b. b \<noteq> v) xs) < length xs"
  by (induction xs) auto

lemma findAllLfLoop_unfold:
  "findAllLfLoop buf acc off =
     (if findLfIndex buf off = -1 then acc
      else findAllLfLoop buf (acc @ [findLfIndex buf off]) (findLfIndex buf off + 1))"
  by (subst findAllLfLoop.simps) (simp add: Let_def)

lemma findAllLfLoop_acc:
  fixes indices :: "int list"
  shows "\<forall>acc. findAllLfLoop buf acc offset = acc @ findAllLfLoop buf [] offset"
proof (induction buf indices offset rule: findAllLfLoop.induct)
  case (1 buf indices offset)
  show ?case
  proof (cases "findLfIndex buf offset = -1")
    case True
    then show ?thesis by (simp add: findAllLfLoop_unfold [of buf _ offset])
  next
    case False
    let ?idx = "findLfIndex buf offset"
    from 1 [OF refl False]
    have IH: "\<And>acc. findAllLfLoop buf acc (?idx + 1) = acc @ findAllLfLoop buf [] (?idx + 1)"
      by blast
    show ?thesis
    proof
      fix acc
      have "findAllLfLoop buf acc offset = findAllLfLoop buf (acc @ [?idx]) (?idx + 1)"
        using False by (simp add: findAllLfLoop_unfold [of buf acc offset])
      also have "\<dots> = acc @ [?idx] @ findAllLfLoop buf [] (?idx + 1)"
        by (subst IH) simp
      also have "[?idx] @ findAllLfLoop buf [] (?idx + 1) = findAllLfLoop buf [?idx] (?idx + 1)"
        by (subst IH [of "[?idx]"]) simp
      also have "\<dots> = findAllLfLoop buf [] offset"
        using False by (simp add: findAllLfLoop_unfold [of buf "[]" offset])
      finally show "findAllLfLoop buf acc offset = acc @ findAllLfLoop buf [] offset" .
    qed
  qed
qed

lemma slice_nonneg:
  "0 \<le> s \<Longrightarrow> 0 \<le> e \<Longrightarrow> slice xs s e = take (nat e - nat s) (drop (nat s) xs)"
  by (auto simp: slice_def relIndex_def Let_def min_def)

lemma lines_from:
  "0 \<le> offset \<Longrightarrow> offset \<le> int (length buf) \<Longrightarrow>
   mapLines buf offset (findAllLfLoop buf [] offset @ [int (length buf) - 1])
     = linesAcc [] (drop (nat offset) buf)"
proof (induction "nat (int (length buf) - offset)" arbitrary: offset rule: less_induct)
  case less
  note 1 = less
  let ?xs = "drop (nat offset) buf"
  have k: "relIndex (length buf) offset = nat offset"
    using 1(2,3) by (simp add: relIndex_def)
  show ?case
  proof (cases "LF \<in> set ?xs")
    case False
    then have "findLfIndex buf offset = -1"
      by (simp add: findLfIndex_def indexOf_def k indexOfAux_none)
    then have "findAllLfLoop buf [] offset = []"
      by (simp add: findAllLfLoop_unfold [of buf _ offset])
    then show ?thesis
      using False 1(2,3) by (simp add: linesAcc_noLf slice_nonneg)
  next
    case True
    define n where "n = length (takeWhile (\<lambda>b. b \<noteq> LF) ?xs)"
    have idx: "findLfIndex buf offset = offset + int n"
      using True 1(2) by (simp add: findLfIndex_def indexOf_def k indexOfAux_some n_def)
    have nlt: "n < length ?xs"
      unfolding n_def using True by (rule takeWhile_neq_less)
    then have ne: "findLfIndex buf offset \<noteq> -1" using idx 1(2) by simp
    have acc1: "findAllLfLoop buf [offset + int n] (offset + int n + 1)
        = [offset + int n] @ findAllLfLoop buf [] (offset + int n + 1)"
      using findAllLfLoop_acc [of buf "offset + int n + 1"] by blast
    have loop: "findAllLfLoop buf [] offset
        = (offset + int n) # findAllLfLoop buf [] (offset + int n + 1)"
      using ne idx acc1
      by (simp add: findAllLfLoop_unfold [of buf "[]" offset])
    have xs: "?xs = takeWhile (\<lambda>b. b \<noteq> LF) ?xs @ LF # tl (dropWhile (\<lambda>b. b \<noteq> LF) ?xs)"
      using True
      by (metis (mono_tags, lifting) dropWhile_eq_Nil_conv hd_dropWhile list.collapse takeWhile_dropWhile_id)
    have first: "slice buf offset (offset + int n + 1) = takeWhile (\<lambda>b. b \<noteq> LF) ?xs @ [LF]"
    proof -
      have "slice buf offset (offset + int n + 1) = take (Suc n) ?xs"
        using 1(2) by (simp add: slice_nonneg nat_add_distrib Suc_diff_le)
      also have "\<dots> = takeWhile (\<lambda>b. b \<noteq> LF) ?xs @ [LF]"
        by (subst xs) (simp add: n_def)
      finally show ?thesis .
    qed
    have rest: "drop (nat (offset + int n + 1)) buf = tl (dropWhile (\<lambda>b. b \<noteq> LF) ?xs)"
    proof -
      have "drop (nat (offset + int n + 1)) buf = drop (Suc n) ?xs"
        using 1(2) by (simp add: nat_add_distrib add.commute)
      also have "\<dots> = tl (dropWhile (\<lambda>b. b \<noteq> LF) ?xs)"
        by (subst xs) (simp add: n_def)
      finally show ?thesis .
    qed
    have "offset + int n + 1 \<le> int (length buf)" using nlt 1(2) by simp
    with 1(1) [of "offset + int n + 1"] 1(2)
    have IH: "mapLines buf (offset + int n + 1)
           (findAllLfLoop buf [] (offset + int n + 1) @ [int (length buf) - 1])
        = linesAcc [] (drop (nat (offset + int n + 1)) buf)"
      by simp
    show ?thesis
      using True by (simp add: loop first IH rest linesAcc_Lf [of ?xs "[]"])
  qed
qed

lemma getRawLines_linesAcc: "getRawLines bs = linesAcc [] bs"
  using lines_from [of 0 bs] by (simp add: getRawLines_def findAllLfIndices_def)

lemma concat_foldl_len: "foldl (\<lambda>acc b. acc + length b) n bss = n + length (concat bss)"
  by (induction bss arbitrary: n) auto

lemma concatBytes_loop:
  "length buf = offset + length (concat bss) \<Longrightarrow>
   fst (foldl (\<lambda>(buf, offset) b. (setAt buf b offset, offset + length b)) (buf, offset) bss)
     = take offset buf @ concat bss"
proof (induction bss arbitrary: buf offset)
  case Nil
  then show ?case by simp
next
  case (Cons b bss)
  have len: "length (setAt buf b offset) = (offset + length b) + length (concat bss)"
    using Cons.prems by (simp add: setAt_def)
  have "take (offset + length b) (setAt buf b offset) = take offset buf @ b"
    using Cons.prems by (simp add: setAt_def)
  with Cons.IH [OF len] show ?case by simp
qed

lemma concatBytes_concat: "concatBytes bss = concat bss"
  using concatBytes_loop [of "replicate (length (concat bss)) 0" 0 bss]
  by (simp add: concatBytes_def concat_foldl_len)


text \<open>
  Claim C4. For every byte buffer, the empty one and those ending in LF included,
  concatenating the lines of the line decomposition in order gives the buffer back.
\<close>

theorem getRawLines_concat: "concatBytes (getRawLines bs) = bs"
  by (simp add: concatBytes_concat getRawLines_linesAcc concat_linesAcc)


section \<open>The boundary search\<close>


lemma take4_EMPTY_LINE: "take 4 ys = EMPTY_LINE \<longleftrightarrow> (\<exists>b. ys = EMPTY_LINE @ b)"
proof
  assume "take 4 ys = EMPTY_LINE"
  then have "ys = EMPTY_LINE @ drop 4 ys" by (metis append_take_drop_id)
  then show "\<exists>b. ys = EMPTY_LINE @ b" ..
next
  assume "\<exists>b. ys = EMPTY_LINE @ b"
  then show "take 4 ys = EMPTY_LINE" by (auto simp: EMPTY_LINE_def)
qed

lemma hasEmptyLine_iff: "hasEmptyLine bs \<longleftrightarrow> (\<exists>h b. bs = h @ EMPTY_LINE @ b)"
proof (induction bs)
  case Nil
  then show ?case by (simp add: EMPTY_LINE_def)
next
  case (Cons x xs)
  show ?case
  proof
    assume "hasEmptyLine (x # xs)"
    then consider "take 4 (x # xs) = EMPTY_LINE" | "hasEmptyLine xs" by auto
    then show "\<exists>h b. x # xs = h @ EMPTY_LINE @ b"
    proof cases
      case 1
      then obtain b where "x # xs = EMPTY_LINE @ b" using take4_EMPTY_LINE by blast
      then have "x # xs = [] @ EMPTY_LINE @ b" by simp
      then show ?thesis by blast
    next
      case 2
      then obtain h b where "xs = h @ EMPTY_LINE @ b" using Cons.IH by blast
      then have "x # xs = (x # h) @ EMPTY_LINE @ b" by simp
      then show ?thesis by blast
    qed
  next
    assume "\<exists>h b. x # xs = h @ EMPTY_LINE @ b"
    then obtain h b where hb: "x # xs = h @ EMPTY_LINE @ b" by blast
    show "hasEmptyLine (x # xs)"
    proof (cases h)
      case Nil
      then have "take 4 (x # xs) = EMPTY_LINE" using hb take4_EMPTY_LINE [of "x # xs"] by auto
      then show ?thesis by simp
    next
      case (Cons y h')
      then have "xs = h' @ EMPTY_LINE @ b" using hb by simp
      then have "hasEmptyLine xs" using Cons.IH by blast
      then show ?thesis by simp
    qed
  qed
qed


lemma matchAt_iff:
  "matchAt bs j \<longleftrightarrow>
     j + 3 < length bs \<and> bs ! j = CR \<and> bs ! (j + 1) = LF \<and> bs ! (j + 2) = CR \<and> bs ! (j + 3) = LF"
proof
  assume m: "matchAt bs j"
  then have len: "length (take 4 (drop j bs)) = 4" by (simp add: matchAt_def EMPTY_LINE_def)
  then have l: "j + 3 < length bs" by simp
  have "\<And>i. i < 4 \<Longrightarrow> bs ! (j + i) = EMPTY_LINE ! i"
  proof -
    fix i :: nat assume "i < 4"
    then have "take 4 (drop j bs) ! i = bs ! (j + i)" using l by simp
    with m show "bs ! (j + i) = EMPTY_LINE ! i" by (simp add: matchAt_def)
  qed
  from this [of 0] this [of 1] this [of 2] this [of 3] l
  show "j + 3 < length bs \<and> bs ! j = CR \<and> bs ! (j + 1) = LF \<and> bs ! (j + 2) = CR \<and> bs ! (j + 3) = LF"
    by (simp add: EMPTY_LINE_def)
next
  assume a: "j + 3 < length bs \<and> bs ! j = CR \<and> bs ! (j + 1) = LF \<and> bs ! (j + 2) = CR \<and> bs ! (j + 3) = LF"
  then have l: "j < length bs" "Suc j < length bs" "Suc (Suc j) < length bs"
      "Suc (Suc (Suc j)) < length bs"
    by arith+
  have e: "j + 1 = Suc j" "j + 2 = Suc (Suc j)" "j + 3 = Suc (Suc (Suc j))" by arith+
  have d0: "drop j bs = bs ! j # drop (Suc j) bs"
    using l(1) by (simp add: Cons_nth_drop_Suc)
  have d1: "drop (Suc j) bs = bs ! (j + 1) # drop (Suc (Suc j)) bs"
    using l(2) by (simp add: Cons_nth_drop_Suc)
  have d2: "drop (Suc (Suc j)) bs = bs ! (j + 2) # drop (Suc (Suc (Suc j))) bs"
    using l(3) by (simp add: Cons_nth_drop_Suc e)
  have d3: "drop (Suc (Suc (Suc j))) bs = bs ! (j + 3) # drop (Suc (Suc (Suc (Suc j)))) bs"
    using l(4) by (simp add: Cons_nth_drop_Suc e)
  have "take 4 (drop j bs) = [bs ! j, bs ! (j + 1), bs ! (j + 2), bs ! (j + 3)]"
    by (subst d0, subst d1, subst d2, subst d3) (simp add: numeral_eq_Suc)
  with a show "matchAt bs j"
    by (simp add: matchAt_def EMPTY_LINE_def)
qed

lemma indexOfAux_found:
  "indexOfAux v xs k \<noteq> -1 \<Longrightarrow>
   \<exists>n. indexOfAux v xs k = int (k + n) \<and> n < length xs \<and> xs ! n = v \<and> (\<forall>j<n. xs ! j \<noteq> v)"
proof (induction xs arbitrary: k)
  case Nil
  then show ?case by simp
next
  case (Cons x xs)
  show ?case
  proof (cases "x = v")
    case True
    then show ?thesis by (intro exI [of _ 0]) simp
  next
    case False
    with Cons.prems have "indexOfAux v xs (Suc k) \<noteq> -1" by simp
    from Cons.IH [OF this] obtain n where
      n: "indexOfAux v xs (Suc k) = int (Suc k + n)" "n < length xs" "xs ! n = v" "\<forall>j<n. xs ! j \<noteq> v"
      by blast
    have "\<forall>j<Suc n. (x # xs) ! j \<noteq> v"
      using False n(4) by (auto simp: nth_Cons split: nat.splits)
    with n False show ?thesis by (intro exI [of _ "Suc n"]) simp
  qed
qed

lemma indexOfAux_notfound: "indexOfAux v xs k = -1 \<Longrightarrow> v \<notin> set xs"
  using indexOfAux_range [of v xs k] by (induction xs arbitrary: k) (auto split: if_splits)

lemma indexOf_found:
  assumes "0 \<le> off" "indexOf bs v off \<noteq> -1"
  shows "\<exists>r. indexOf bs v off = int r \<and> nat off \<le> r \<and> r < length bs \<and> bs ! r = v
            \<and> (\<forall>j. nat off \<le> j \<and> j < r \<longrightarrow> bs ! j \<noteq> v)"
proof -
  let ?k = "nat off"
  have k: "relIndex (length bs) off = min ?k (length bs)"
    using assms(1) by (simp add: relIndex_def)
  have klen: "?k < length bs"
    using assms indexOf_range [of bs v off] by simp
  then have io: "indexOf bs v off = indexOfAux v (drop ?k bs) ?k"
    by (simp add: indexOf_def k Let_def)
  with assms(2) indexOfAux_found [of v "drop ?k bs" ?k] obtain n where
    n: "indexOfAux v (drop ?k bs) ?k = int (?k + n)" "n < length (drop ?k bs)"
       "drop ?k bs ! n = v" "\<forall>j<n. drop ?k bs ! j \<noteq> v"
    by auto
  have "\<forall>j. ?k \<le> j \<and> j < ?k + n \<longrightarrow> bs ! j \<noteq> v"
  proof (intro allI impI)
    fix j assume j: "?k \<le> j \<and> j < ?k + n"
    then have "j - ?k < n" by arith
    with n(4) have "drop ?k bs ! (j - ?k) \<noteq> v" by blast
    then show "bs ! j \<noteq> v" using j klen by simp
  qed
  moreover have "bs ! (?k + n) = v" using n(2,3) klen by simp
  ultimately show ?thesis using io n(1,2) by (intro exI [of _ "?k + n"]) auto
qed

lemma indexOf_notfound:
  assumes "0 \<le> off" "indexOf bs v off = -1"
  shows "\<forall>j. nat off \<le> j \<and> j < length bs \<longrightarrow> bs ! j \<noteq> v"
proof (intro allI impI)
  fix j assume j: "nat off \<le> j \<and> j < length bs"
  let ?k = "nat off"
  have k: "relIndex (length bs) off = ?k" using assms(1) j by (simp add: relIndex_def)
  have "v \<notin> set (drop ?k bs)"
    using assms(2) indexOfAux_notfound [of v "drop ?k bs" ?k] by (simp add: indexOf_def k Let_def)
  moreover have "bs ! j = drop ?k bs ! (j - ?k)" using j by simp
  moreover have "j - ?k < length (drop ?k bs)" using j by (simp only: length_drop) arith
  ultimately show "bs ! j \<noteq> v" by (metis nth_mem)
qed

lemma findEmptyLineFrom_unfold:
  "findEmptyLineFrom bs offset =
     (if findCrIndex bs offset = - 1 \<or> findCrIndex bs offset + 3 \<ge> int (length bs) then - 1
      else if elemAt bs (findCrIndex bs offset + 1) = Some LF
              \<and> elemAt bs (findCrIndex bs offset + 2) = Some CR
              \<and> elemAt bs (findCrIndex bs offset + 3) = Some LF
           then findCrIndex bs offset
           else findEmptyLineFrom bs (findCrIndex bs offset + 1))"
  by (subst findEmptyLineFrom.simps) (simp add: Let_def)

lemma findEmptyLineFrom_spec:
  "0 \<le> offset \<Longrightarrow>
   (findEmptyLineFrom bs offset = - 1 \<and> (\<forall>j. nat offset \<le> j \<longrightarrow> \<not> matchAt bs j)) \<or>
   (\<exists>r. findEmptyLineFrom bs offset = int r \<and> nat offset \<le> r \<and> matchAt bs r
        \<and> (\<forall>j. nat offset \<le> j \<and> j < r \<longrightarrow> \<not> matchAt bs j))"
proof (induction bs offset rule: findEmptyLineFrom.induct)
  case (1 bs offset)
  let ?idx = "findCrIndex bs offset"
  show ?case
  proof (cases "?idx = - 1")
    case True
    then have "\<forall>j. nat offset \<le> j \<and> j < length bs \<longrightarrow> bs ! j \<noteq> CR"
      using indexOf_notfound [of offset bs CR] 1(2) by (simp add: findCrIndex_def)
    then have "\<forall>j. nat offset \<le> j \<longrightarrow> \<not> matchAt bs j"
      by (auto simp: matchAt_iff)
    with True show ?thesis by (simp add: findEmptyLineFrom_unfold [of bs offset])
  next
    case False
    then obtain r where r: "?idx = int r" "nat offset \<le> r" "r < length bs" "bs ! r = CR"
        "\<forall>j. nat offset \<le> j \<and> j < r \<longrightarrow> bs ! j \<noteq> CR"
      using indexOf_found [of offset bs CR] 1(2) unfolding findCrIndex_def by blast
    have before: "\<forall>j. nat offset \<le> j \<and> j < r \<longrightarrow> \<not> matchAt bs j"
      using r(5) by (auto simp: matchAt_iff)
    show ?thesis
    proof (cases "?idx + 3 \<ge> int (length bs)")
      case True
      then have "\<forall>j. r \<le> j \<longrightarrow> \<not> matchAt bs j" using r(1) by (auto simp: matchAt_iff)
      with before have "\<forall>j. nat offset \<le> j \<longrightarrow> \<not> matchAt bs j"
        by (metis not_le_imp_less)
      with True show ?thesis by (simp add: findEmptyLineFrom_unfold [of bs offset])
    next
      case inb: False
      have el: "elemAt bs (int r + 1) = Some (bs ! (r + 1))"
               "elemAt bs (int r + 2) = Some (bs ! (r + 2))"
               "elemAt bs (int r + 3) = Some (bs ! (r + 3))"
        using inb r(1) by (simp_all add: elemAt_def nat_add_distrib)
      show ?thesis
      proof (cases "matchAt bs r")
        case True
        then have "findEmptyLineFrom bs offset = int r"
          using False inb r(1) el
          by (simp add: findEmptyLineFrom_unfold [of bs offset] matchAt_iff)
        with True before r(2) show ?thesis by blast
      next
        case nm: False
        then have step: "findEmptyLineFrom bs offset = findEmptyLineFrom bs (int r + 1)"
          using False inb r(1,4) el
          by (auto simp add: findEmptyLineFrom_unfold [of bs offset] matchAt_iff)
        have cond: "\<not> (?idx = - 1 \<or> int (length bs) \<le> ?idx + 3)" using False inb by simp
        have nm': "\<not> (elemAt bs (?idx + 1) = Some LF \<and> elemAt bs (?idx + 2) = Some CR
            \<and> elemAt bs (?idx + 3) = Some LF)"
          using nm inb r(1,4) el by (auto simp: matchAt_iff)
        have "0 \<le> ?idx + 1" using r(1) by simp
        from 1(1) [OF refl cond nm' this]
        have IH: "(findEmptyLineFrom bs (int r + 1) = - 1 \<and> (\<forall>j. Suc r \<le> j \<longrightarrow> \<not> matchAt bs j)) \<or>
           (\<exists>r'. findEmptyLineFrom bs (int r + 1) = int r' \<and> Suc r \<le> r' \<and> matchAt bs r'
              \<and> (\<forall>j. Suc r \<le> j \<and> j < r' \<longrightarrow> \<not> matchAt bs j))"
          using r(1) by (simp add: nat_add_distrib)
        have all: "\<And>j P. nat offset \<le> j \<Longrightarrow> (Suc r \<le> j \<Longrightarrow> \<not> matchAt bs j) \<Longrightarrow> \<not> matchAt bs j"
          using before nm by (metis Suc_leI le_neq_implies_less not_le_imp_less)
        from IH show ?thesis
        proof
          assume a: "findEmptyLineFrom bs (int r + 1) = - 1 \<and> (\<forall>j. Suc r \<le> j \<longrightarrow> \<not> matchAt bs j)"
          then have "\<forall>j. nat offset \<le> j \<longrightarrow> \<not> matchAt bs j" using all by blast
          with a step show ?thesis by simp
        next
          assume "\<exists>r'. findEmptyLineFrom bs (int r + 1) = int r' \<and> Suc r \<le> r' \<and> matchAt bs r'
              \<and> (\<forall>j. Suc r \<le> j \<and> j < r' \<longrightarrow> \<not> matchAt bs j)"
          then obtain r' where r': "findEmptyLineFrom bs (int r + 1) = int r'" "Suc r \<le> r'"
              "matchAt bs r'" "\<forall>j. Suc r \<le> j \<and> j < r' \<longrightarrow> \<not> matchAt bs j" by blast
          have "\<forall>j. nat offset \<le> j \<and> j < r' \<longrightarrow> \<not> matchAt bs j" using all r'(4) by blast
          moreover have "nat offset \<le> r'" using r(2) r'(2) by simp
          ultimately show ?thesis using step r'(1,3) by auto
        qed
      qed
    qed
  qed
qed


lemma matchAt_decomp: "matchAt bs j \<longleftrightarrow> (\<exists>h b. bs = h @ EMPTY_LINE @ b \<and> length h = j)"
proof
  assume m: "matchAt bs j"
  then have "j + 3 < length bs" by (simp add: matchAt_iff)
  then have "length (take j bs) = j" by simp
  moreover have "bs = take j bs @ EMPTY_LINE @ drop 4 (drop j bs)"
    using m by (metis append_take_drop_id matchAt_def)
  ultimately show "\<exists>h b. bs = h @ EMPTY_LINE @ b \<and> length h = j" by blast
next
  assume "\<exists>h b. bs = h @ EMPTY_LINE @ b \<and> length h = j"
  then show "matchAt bs j" by (auto simp: matchAt_def EMPTY_LINE_def)
qed

lemma hasEmptyLine_matchAt: "hasEmptyLine bs \<longleftrightarrow> (\<exists>j. matchAt bs j)"
  by (auto simp: hasEmptyLine_iff matchAt_decomp)

lemma findEmptyLine_none: "\<not> hasEmptyLine bs \<Longrightarrow> findEmptyLine bs = - 1"
  using findEmptyLineFrom_spec [of 0 bs] by (auto simp: findEmptyLine_def hasEmptyLine_matchAt)

lemma findEmptyLine_some:
  "hasEmptyLine bs \<Longrightarrow>
   \<exists>r. findEmptyLine bs = int r \<and> matchAt bs r \<and> (\<forall>j<r. \<not> matchAt bs j)"
  using findEmptyLineFrom_spec [of 0 bs] by (auto simp: findEmptyLine_def hasEmptyLine_matchAt)

lemma splitMail_fail:
  "\<not> hasEmptyLine bs \<Longrightarrow> splitMail bs = \<lparr>ok = False, res = None\<rparr>"
  by (simp add: splitMail_def findEmptyLine_none)

lemma splitMail_found:
  assumes "hasEmptyLine bs"
  shows "\<exists>r. splitMail bs = \<lparr>ok = True, res = Some (take r bs, drop (r + 4) bs)\<rparr>
            \<and> matchAt bs r \<and> (\<forall>j<r. \<not> matchAt bs j)"
proof -
  from findEmptyLine_some [OF assms] obtain r where
    r: "findEmptyLine bs = int r" "matchAt bs r" "\<forall>j<r. \<not> matchAt bs j" by blast
  have "slice bs 0 (int r) = take r bs" by (simp add: slice_nonneg)
  moreover have "slice bs (int r + int (length EMPTY_LINE)) (int (length bs)) = drop (r + 4) bs"
    by (simp add: slice_nonneg EMPTY_LINE_def nat_add_distrib)
  ultimately have "splitMail bs = \<lparr>ok = True, res = Some (take r bs, drop (r + 4) bs)\<rparr>"
    using r(1) by (simp add: splitMail_def Let_def)
  with r(2,3) show ?thesis by blast
qed

lemma splitMail_ok_iff: "ok (splitMail bs) \<longleftrightarrow> hasEmptyLine bs"
  using splitMail_fail [of bs] splitMail_found [of bs] by (cases "hasEmptyLine bs") auto

lemma matchAt_rebuild: "matchAt bs r \<Longrightarrow> take r bs @ EMPTY_LINE @ drop (r + 4) bs = bs"
proof -
  assume "matchAt bs r"
  then have "drop r bs = EMPTY_LINE @ drop 4 (drop r bs)"
    by (metis append_take_drop_id matchAt_def)
  then have "take r bs @ EMPTY_LINE @ drop 4 (drop r bs) = bs"
    by (metis append_take_drop_id)
  then show ?thesis by (simp add: add.commute)
qed

lemma combineMail_append: "combineMail header body = header @ EMPTY_LINE @ body"
  by (simp add: combineMail_def concatBytes_concat)

section \<open>Splitting and combining are inverse\<close>

text \<open>
  Claim C3. For every byte buffer on which \<open>splitMail\<close> succeeds, the result holds a
  header/body pair, \<open>combineMail\<close> of the pair is header, CR LF CR LF, body, and that is
  the original buffer.
\<close>

theorem splitMail_combineMail:
  "ok (splitMail bs) \<Longrightarrow>
   \<exists>header body. res (splitMail bs) = Some (header, body)
      \<and> combineMail header body = header @ EMPTY_LINE @ body
      \<and> combineMail header body = bs"
proof -
  assume "ok (splitMail bs)"
  then have "hasEmptyLine bs" by (simp add: splitMail_ok_iff)
  from splitMail_found [OF this] obtain r where
    r: "splitMail bs = \<lparr>ok = True, res = Some (take r bs, drop (r + 4) bs)\<rparr>" "matchAt bs r"
    by blast
  have "combineMail (take r bs) (drop (r + 4) bs) = bs"
    using matchAt_rebuild [OF r(2)] by (simp add: combineMail_append)
  with r(1) show ?thesis by (simp add: combineMail_append)
qed

theorem splitMail_combineMail_witness:
  "ok (splitMail [97, 58, 13, 10, 13, 10, 98]) \<and>
   (\<exists>header body. res (splitMail [97, 58, 13, 10, 13, 10, 98]) = Some (header, body)
      \<and> combineMail header body = header @ EMPTY_LINE @ body
      \<and> combineMail header body = [97, 58, 13, 10, 13, 10, 98])"
proof -
  have h: "ok (splitMail [97, 58, 13, 10, 13, 10, 98])" by code_simp
  show ?thesis using h splitMail_combineMail [OF h] by simp
qed

section \<open>The transform\<close>

lemma replaceMail_rewritten_is_new:
  assumes "updateDate \<or> updateMessageId"
    and "replaceMail rt fresh bs updateDate updateMessageId = Inr r" and "ok r"
  shows "\<exists>b. res r = Some b \<and> address b = fresh"
  using assms
  by (auto simp: replaceMail_def isNotUpdate_def Let_def bindE_def
      split: if_splits option.splits prod.splits sum.splits)

text \<open>
  Claim C5. For every buffer, with both flags false \<open>replaceMail\<close> succeeds and its
  result is the very object it was given, the same address with the same contents, not a
  copy; it does so whether or not the contents hold a boundary, as no split is attempted.
\<close>

theorem replaceMail_passthrough:
  "replaceMail rt fresh bs False False = Inr \<lparr>ok = True, res = Some bs\<rparr>"
  by (simp add: replaceMail_def isNotUpdate_def)

text \<open>
  Claim C7. For every byte buffer in which CR, LF, CR, LF does not occur, \<open>splitMail\<close>
  reports "not found" and \<open>replaceMail\<close> with both flags true returns the failure
  result, with no bytes in it.
\<close>

theorem replaceMail_no_boundary:
  "\<not> hasEmptyLine (contents bs) \<Longrightarrow>
   splitMail (contents bs) = \<lparr>ok = False, res = None\<rparr>
   \<and> replaceMail rt fresh bs True True = Inr \<lparr>ok = False, res = None\<rparr>"
  by (simp add: replaceMail_def isNotUpdate_def splitMail_fail)

theorem replaceMail_no_boundary_witness:
  "\<not> hasEmptyLine [97, 58, 13, 10, 98, 13, 10, 13] \<and>
   splitMail [97, 58, 13, 10, 98, 13, 10, 13] = \<lparr>ok = False, res = None\<rparr>
   \<and> replaceMail sampleRuntime 1 \<lparr>address = 0, contents = [97, 58, 13, 10, 98, 13, 10, 13]\<rparr>
         True True
       = Inr \<lparr>ok = False, res = None\<rparr>"
proof -
  have h: "\<not> hasEmptyLine (contents \<lparr>address = 0, contents = [97, 58, 13, 10, 98, 13, 10, 13]\<rparr>)"
    by (simp add: EMPTY_LINE_def CR_def LF_def)
  show ?thesis using h replaceMail_no_boundary [OF h, of sampleRuntime 1] by simp
qed

section \<open>The split is at the earliest boundary\<close>

text \<open>
  A boundary can overlap the next one: in CR LF CR LF CR LF the sequence occurs at offsets
  0 and 2. So a header free of the sequence does not determine the decomposition; what
  does is that no boundary starts before the end of the header.
\<close>

lemma take_no_match:
  assumes "\<forall>j<r. \<not> matchAt bs j"
  shows "\<not> hasEmptyLine (take r bs)"
proof
  assume "hasEmptyLine (take r bs)"
  then obtain j where j: "matchAt (take r bs) j" by (auto simp: hasEmptyLine_matchAt)
  then have "j + 3 < length (take r bs)" by (simp add: matchAt_iff)
  then have jr: "j + 3 < r" "j + 3 < length bs" by simp_all
  then have "matchAt bs j" using j by (simp add: matchAt_iff)
  moreover have "j < r" using jr by simp
  ultimately show False using assms by blast
qed

text \<open>
  Claim C10, as amended. For every byte buffer on which \<open>splitMail\<close> succeeds, the
  returned header contains no occurrence of CR, LF, CR, LF, the buffer is header, boundary,
  body, and the header is the shortest prefix that a boundary follows: every decomposition
  of the buffer around a boundary has a header at least as long, and one with a header of
  the same length is the returned one.
\<close>

theorem splitMail_earliest:
  "ok (splitMail bs) \<Longrightarrow>
   \<exists>header body. res (splitMail bs) = Some (header, body)
      \<and> \<not> hasEmptyLine header
      \<and> bs = header @ EMPTY_LINE @ body
      \<and> (\<forall>h' b'. bs = h' @ EMPTY_LINE @ b' \<longrightarrow>
            length header \<le> length h'
            \<and> (length h' = length header \<longrightarrow> h' = header \<and> b' = body))"
proof -
  assume "ok (splitMail bs)"
  then have "hasEmptyLine bs" by (simp add: splitMail_ok_iff)
  from splitMail_found [OF this] obtain r where
    r: "splitMail bs = \<lparr>ok = True, res = Some (take r bs, drop (r + 4) bs)\<rparr>" "matchAt bs r"
       "\<forall>j<r. \<not> matchAt bs j"
    by blast
  let ?h = "take r bs" and ?b = "drop (r + 4) bs"
  have len: "length ?h = r" using r(2) by (simp add: matchAt_iff)
  have eq: "bs = ?h @ EMPTY_LINE @ ?b" using matchAt_rebuild [OF r(2)] by simp
  have min: "\<forall>h' b'. bs = h' @ EMPTY_LINE @ b' \<longrightarrow>
            length ?h \<le> length h' \<and> (length h' = length ?h \<longrightarrow> h' = ?h \<and> b' = ?b)"
  proof (intro allI impI)
    fix h' b' assume d: "bs = h' @ EMPTY_LINE @ b'"
    then have "matchAt bs (length h')" using matchAt_decomp by blast
    then have le: "r \<le> length h'" using r(3) by (meson not_le_imp_less)
    have "length h' = r \<Longrightarrow> h' = ?h \<and> b' = ?b"
    proof -
      assume l: "length h' = r"
      then have "h' = ?h" using d by simp
      moreover have "b' = ?b" using d l by (simp add: EMPTY_LINE_def)
      ultimately show ?thesis ..
    qed
    with le len show "length ?h \<le> length h' \<and> (length h' = length ?h \<longrightarrow> h' = ?h \<and> b' = ?b)"
      by simp
  qed
  show ?thesis
  proof (intro exI conjI)
    show "res (splitMail bs) = Some (?h, ?b)" using r(1) by simp
    show "\<not> hasEmptyLine ?h" by (rule take_no_match [OF r(3)])
    show "bs = ?h @ EMPTY_LINE @ ?b" by (rule eq)
    show "\<forall>h' b'. bs = h' @ EMPTY_LINE @ b' \<longrightarrow>
            length ?h \<le> length h' \<and> (length h' = length ?h \<longrightarrow> h' = ?h \<and> b' = ?b)"
      by (rule min)
  qed
qed

theorem splitMail_earliest_witness:
  "ok (splitMail [97, 58, 13, 10, 13, 10, 98]) \<and>
   (\<exists>header body. res (splitMail [97, 58, 13, 10, 13, 10, 98]) = Some (header, body)
      \<and> \<not> hasEmptyLine header
      \<and> [97, 58, 13, 10, 13, 10, 98] = header @ EMPTY_LINE @ body
      \<and> (\<forall>h' b'. [97, 58, 13, 10, 13, 10, 98] = h' @ EMPTY_LINE @ b' \<longrightarrow>
            length header \<le> length h'
            \<and> (length h' = length header \<longrightarrow> h' = header \<and> b' = body)))"
proof -
  have h: "ok (splitMail [97, 58, 13, 10, 13, 10, 98])" by code_simp
  show ?thesis using h splitMail_earliest [OF h] by simp
qed

text \<open>
  Claim C10 as stated fails: the buffer CR LF CR LF CR LF is split into an empty header
  and the body CR LF, and it is also the header CR LF, which contains no boundary,
  followed by a boundary and an empty body.
\<close>

theorem splitMail_unique_counterexample:
  "splitMail [13, 10, 13, 10, 13, 10] = \<lparr>ok = True, res = Some ([], [13, 10])\<rparr>
   \<and> [13, 10, 13, 10, 13, 10] = [13, 10] @ EMPTY_LINE @ []
   \<and> \<not> hasEmptyLine [13, 10]
   \<and> ([13, 10], []) \<noteq> (([], [13, 10]) :: bytes \<times> bytes)"
proof -
  have "splitMail [13, 10, 13, 10, 13, 10] = \<lparr>ok = True, res = Some ([], [13, 10])\<rparr>"
    by code_simp
  then show ?thesis by (simp add: EMPTY_LINE_def CR_def LF_def)
qed


declare digitsOf.simps [simp del]

section \<open>Dropping folded lines\<close>

text \<open>
  \<open>dropFoldedLine\<close> drops the leading folded lines when a line that is not folded follows
  them. When every line is folded the search returns \<open>-1\<close>, the test \<open>idx \<le> 0\<close> sends
  that to the branch meant for "nothing to drop", and the list comes back whole.
\<close>

lemma findIndexAux_none: "\<forall>x\<in>set xs. \<not> p x \<Longrightarrow> findIndexAux p xs k = - 1"
  by (induction xs arbitrary: k) auto

lemma findIndexAux_some:
  "\<exists>x\<in>set xs. p x \<Longrightarrow>
   findIndexAux p xs k = int k + int (length (takeWhile (\<lambda>x. \<not> p x) xs))"
proof (induction xs arbitrary: k)
  case Nil
  then show ?case by simp
next
  case (Cons a xs)
  show ?case
  proof (cases "p a")
    case True
    then show ?thesis by simp
  next
    case False
    with Cons.prems have "\<exists>x\<in>set xs. p x" by auto
    from Cons.IH [OF this, of "Suc k"] False show ?thesis by simp
  qed
qed

lemma sliceFrom_nonneg: "0 \<le> i \<Longrightarrow> sliceFrom xs i = drop (nat i) xs"
  by (simp add: sliceFrom_def slice_nonneg)

lemma dropFoldedLine_all_folded: "\<forall>l\<in>set lines. isFoldedLine l \<Longrightarrow> dropFoldedLine lines = lines"
  by (simp add: dropFoldedLine_def findIndex_def findIndexAux_none)

lemma dropFoldedLine_dropWhile:
  assumes "\<exists>l\<in>set lines. \<not> isFoldedLine l"
  shows "dropFoldedLine lines = dropWhile isFoldedLine lines"
proof -
  let ?n = "length (takeWhile isFoldedLine lines)"
  have idx: "findIndex (\<lambda>l. \<not> isFoldedLine l) lines = int ?n"
    using findIndexAux_some [of lines "\<lambda>l. \<not> isFoldedLine l" 0] assms
    by (simp add: findIndex_def)
  show ?thesis
  proof (cases "?n = 0")
    case True
    then have "dropWhile isFoldedLine lines = lines"
      by (metis append_Nil length_0_conv takeWhile_dropWhile_id)
    with True idx show ?thesis by (simp add: dropFoldedLine_def)
  next
    case False
    with idx show ?thesis
      by (simp add: dropFoldedLine_def sliceFrom_nonneg dropWhile_eq_drop)
  qed
qed

text \<open>
  Claim C6 on the code: the list of the one folded line " x" is returned as it is, where
  the suffix from the first line that is not folded is empty.
\<close>

theorem dropFoldedLine_keeps_folded:
  "isFoldedLine [32, 120] \<and> dropFoldedLine [[32, 120]] = [[32, 120]]
   \<and> dropWhile isFoldedLine [[32, 120]] = []"
  by (simp add: dropFoldedLine_def findIndex_def isFoldedLine_def isWsp_def elemAt_def SPACE_def)

text \<open>
  Through \<open>replaceHeader\<close>: the header "Date:", CR LF, " x" (the folded Date field is the
  last of the header, as after \<open>splitMail\<close>) keeps the old continuation line " x" behind
  the generated Date line.
\<close>

lemma replaceHeader_leaves_continuation:
  "replaceHeader sampleRuntime (encode ''Date:'' @ [CR, LF] @ encode '' x'') True False
     = Inr (encode (makeNowDateLine sampleRuntime) @ encode '' x'')"
  by code_simp


section \<open>Reply classification, characterised\<close>

lemma test_Times_Suc:
  "test (Times (Suc n) a # ps) s \<longleftrightarrow> (\<exists>c s'. s = c # s' \<and> atomMatches a c \<and> test (Times n a # ps) s')"
  by (cases s) auto

lemma test_Plus_last: "test [Plus a] s \<longleftrightarrow> (\<exists>c s'. s = c # s' \<and> atomMatches a c)"
  by (cases s) auto

lemma isLastReply_unfold: "isLastReply line \<longleftrightarrow>
      test [Times (Suc (Suc (Suc 0))) Digit, Times (Suc 0) (Lit 0x20), Plus AnyChar] line"
    by (simp add: isLastReply_def LAST_REPLY_REGEX_def numeral_3_eq_3)


lemma test_LAST_REPLY_REGEX: "test [Times (Suc (Suc (Suc 0))) Digit, Times (Suc 0) (Lit 0x20), Plus AnyChar] line
   \<longleftrightarrow> (\<exists>d1 d2 d3 c rest. line = d1 # d2 # d3 # 0x20 # c # rest
        \<and> atomMatches Digit d1 \<and> atomMatches Digit d2 \<and> atomMatches Digit d3
        \<and> atomMatches AnyChar c)"
proof (cases line)
  case Nil
  then show ?thesis by simp
next
  case l1: (Cons d1 r1)
  show ?thesis
  proof (cases r1)
    case Nil
    with l1 show ?thesis by simp
  next
    case l2: (Cons d2 r2)
    show ?thesis
    proof (cases r2)
      case Nil
      with l1 l2 show ?thesis by simp
    next
      case l3: (Cons d3 r3)
      show ?thesis
      proof (cases r3)
        case Nil
        with l1 l2 l3 show ?thesis by simp
      next
        case l4: (Cons sp r4)
        show ?thesis
        proof (cases r4)
          case Nil
          with l1 l2 l3 l4 show ?thesis by simp
        next
          case l5: (Cons c rest)
          with l1 l2 l3 l4 show ?thesis by (auto simp del: atomMatches.simps(1) atomMatches.simps(3))
        qed
      qed
    qed
  qed
qed


lemma isLastReply_iff:
  "isLastReply line \<longleftrightarrow>
     (\<exists>d1 d2 d3 c rest. line = d1 # d2 # d3 # 0x20 # c # rest
        \<and> d1 \<in> set (utf16 ''0123456789'') \<and> d2 \<in> set (utf16 ''0123456789'')
        \<and> d3 \<in> set (utf16 ''0123456789'')
        \<and> c \<notin> {0x0A, 0x0D, 0x2028, 0x2029})"
  unfolding isLastReply_unfold test_LAST_REPLY_REGEX atomMatches.simps ..

lemma isPositiveReply_iff:
  "isPositiveReply line \<longleftrightarrow> (\<exists>rest. line = 0x32 # rest \<or> line = 0x33 # rest)"
  by (cases line) (auto simp: isPositiveReply_def charAt_def elemAt_def utf16_def)

text \<open>
  Claim C8, as amended. For every string, \<open>isLastReply line\<close> holds iff the line is three
  digits, one space (0x20) and at least one further character, the first of which is not
  a line terminator: the dot of the pattern matches none of LF, CR, U+2028 and U+2029.
  \<open>isPositiveReply line\<close> holds iff the first character is 2 (0x32) or 3 (0x33), so not
  for the empty line; and the three sample lines are classified as the claim says.
\<close>

theorem reply_classification:
  "(isLastReply line \<longleftrightarrow>
     (\<exists>d1 d2 d3 c rest. line = d1 # d2 # d3 # 0x20 # c # rest
        \<and> d1 \<in> set (utf16 ''0123456789'') \<and> d2 \<in> set (utf16 ''0123456789'')
        \<and> d3 \<in> set (utf16 ''0123456789'')
        \<and> c \<notin> {0x0A, 0x0D, 0x2028, 0x2029}))
   \<and> (isPositiveReply line \<longleftrightarrow> (\<exists>rest. line = 0x32 # rest \<or> line = 0x33 # rest))
   \<and> \<not> isPositiveReply []
   \<and> \<not> isLastReply (utf16 ''250-First line'')
   \<and> isLastReply (utf16 ''250 The last line'') \<and> isPositiveReply (utf16 ''250 The last line'')
   \<and> isLastReply (utf16 ''550 Failure'') \<and> \<not> isPositiveReply (utf16 ''550 Failure'')"
proof (intro conjI)
  show "isLastReply line \<longleftrightarrow>
     (\<exists>d1 d2 d3 c rest. line = d1 # d2 # d3 # 0x20 # c # rest
        \<and> d1 \<in> set (utf16 ''0123456789'') \<and> d2 \<in> set (utf16 ''0123456789'')
        \<and> d3 \<in> set (utf16 ''0123456789'')
        \<and> c \<notin> {0x0A, 0x0D, 0x2028, 0x2029})"
    by (rule isLastReply_iff)
  show "isPositiveReply line \<longleftrightarrow> (\<exists>rest. line = 0x32 # rest \<or> line = 0x33 # rest)"
    by (rule isPositiveReply_iff)
  show "\<not> isPositiveReply []" by code_simp
  show "\<not> isLastReply (utf16 ''250-First line'')" by code_simp
  show "isLastReply (utf16 ''250 The last line'')" by code_simp
  show "isPositiveReply (utf16 ''250 The last line'')" by code_simp
  show "isLastReply (utf16 ''550 Failure'')" by code_simp
  show "\<not> isPositiveReply (utf16 ''550 Failure'')" by code_simp
qed

text \<open>
  Claim C8 as stated fails on a line of three digits, one space and one further
  character when that character is a line terminator: a carriage return, or U+2028.
\<close>

theorem isLastReply_counterexample:
  "length (utf16 ''250 '' @ [0x0D]) = 5 \<and> \<not> isLastReply (utf16 ''250 '' @ [0x0D])
   \<and> length (utf16 ''250 '' @ [0x2028]) = 5 \<and> \<not> isLastReply (utf16 ''250 '' @ [0x2028])"
  by code_simp

section \<open>The time zone token, in both revisions\<close>

lemma padZero2_range:
  assumes "0 \<le> n" "n \<le> 99"
  shows "padZero2 n = Inr (twoDigits (nat n))"
proof (cases "n < 10")
  case True
  then have "nat n < 10" using assms by simp
  then have "intToString n = [digitChar (nat n)]"
    using assms by (simp add: intToString_def digitsOf.simps [of "nat n"])
  moreover have "digitChar 0 = CHR ''0''" by code_simp
  ultimately show ?thesis
    using assms True
    by (simp add: padZero2_def twoDigits_def sliceFrom_def slice_def relIndex_def)
next
  case False
  then have "nat n div 10 < 10" using assms by simp
  then have "intToString n = [digitChar (nat n div 10), digitChar (nat n mod 10)]"
    using assms False
    by (simp add: intToString_def digitsOf.simps [of "nat n"] digitsOf.simps [of "nat n div 10"])
  then show ?thesis
    using assms by (simp add: padZero2_def twoDigits_def sliceFrom_def slice_def relIndex_def)
qed

lemma makeTimeZoneOffset_range:
  assumes "- 840 \<le> mins" "mins \<le> 720"
  shows "makeTimeZoneOffset mins =
     Inr ((if mins \<le> 0 then ''+'' else ''-'')
          @ twoDigits (nat (\<bar>mins\<bar> div 60)) @ twoDigits (nat (\<bar>mins\<bar> mod 60)))"
proof -
  have "0 \<le> \<bar>mins\<bar> div 60" "\<bar>mins\<bar> div 60 \<le> 99" using assms by simp_all
  then have a: "padZero2 (\<bar>mins\<bar> div 60) = Inr (twoDigits (nat (\<bar>mins\<bar> div 60)))"
    by (rule padZero2_range)
  have "0 \<le> \<bar>mins\<bar> mod 60" "\<bar>mins\<bar> mod 60 \<le> 99"
    using pos_mod_bound [of 60 "\<bar>mins\<bar>"] by simp_all
  then have b: "padZero2 (\<bar>mins\<bar> mod 60) = Inr (twoDigits (nat (\<bar>mins\<bar> mod 60)))"
    by (rule padZero2_range)
  show ?thesis using assms by (simp add: makeTimeZoneOffset_def a b bindE_def)
qed

lemma makeTimeZoneOffset_error:
  "mins < - 840 \<or> 720 < mins \<Longrightarrow> makeTimeZoneOffset mins = Inl (Error ''invalid number'')"
  by (auto simp: makeTimeZoneOffset_def)

lemma padZero2_cases: "padZero2 n = Inl (Error ''invalid number'') \<or> (\<exists>s. padZero2 n = Inr s)"
  by (simp add: padZero2_def)

lemma makeNowDateLineTz_zone:
  "makeNowDateLineTz obj = Inr line \<Longrightarrow>
   \<exists>zone pre. makeTimeZoneOffset (getTimezoneOffset obj) = Inr zone \<and> line = pre @ '' '' @ zone @ CRLF"
  by (auto simp: makeNowDateLineTz_def bindE_def Let_def split: sum.splits)

lemma makeNowDateLineTz_error:
  "makeNowDateLineTz obj = Inl e \<Longrightarrow> e = Error ''invalid number''"
  by (auto simp: makeNowDateLineTz_def bindE_def Let_def padZero2_def makeTimeZoneOffset_def
      split: sum.splits if_splits)

lemma makeNowDateLineTz_out_of_range:
  assumes "getTimezoneOffset obj < - 840 \<or> 720 < getTimezoneOffset obj"
  shows "makeNowDateLineTz obj = Inl (Error ''invalid number'')"
proof (cases "makeNowDateLineTz obj")
  case (Inl e)
  then show ?thesis using makeNowDateLineTz_error by blast
next
  case (Inr line)
  then show ?thesis using makeNowDateLineTz_zone [OF Inr] makeTimeZoneOffset_error [OF assms] by simp
qed


text \<open>
  The revision with \<open>makeTimeZoneOffset\<close> does what claim C9 says. For every offset in
  minutes from UTC: outside -840 .. 720 the token is an error; a negative offset (local
  time ahead of UTC) gives "+" and a positive one "-", each followed by the hours and the
  minutes of the magnitude as two digits; and the Date line of the generator that uses the
  token ends with a space, that token and CR LF, and is an error when the offset is out of
  range.
\<close>

lemma timezone_token:
  "(mins < - 840 \<or> 720 < mins \<longrightarrow> makeTimeZoneOffset mins = Inl (Error ''invalid number''))
   \<and> (- 840 \<le> mins \<and> mins < 0 \<longrightarrow>
        makeTimeZoneOffset mins =
          Inr (''+'' @ twoDigits (nat (\<bar>mins\<bar> div 60)) @ twoDigits (nat (\<bar>mins\<bar> mod 60))))
   \<and> (0 < mins \<and> mins \<le> 720 \<longrightarrow>
        makeTimeZoneOffset mins =
          Inr (''-'' @ twoDigits (nat (\<bar>mins\<bar> div 60)) @ twoDigits (nat (\<bar>mins\<bar> mod 60))))
   \<and> (getTimezoneOffset obj = mins \<longrightarrow>
        (mins < - 840 \<or> 720 < mins \<longrightarrow> makeNowDateLineTz obj = Inl (Error ''invalid number''))
        \<and> (\<forall>line. makeNowDateLineTz obj = Inr line \<longrightarrow>
              (\<exists>zone pre. makeTimeZoneOffset mins = Inr zone \<and> line = pre @ '' '' @ zone @ CRLF)))"
proof (intro conjI impI allI)
  assume "mins < - 840 \<or> 720 < mins"
  then show "makeTimeZoneOffset mins = Inl (Error ''invalid number'')"
    by (rule makeTimeZoneOffset_error)
next
  assume "- 840 \<le> mins \<and> mins < 0"
  then show "makeTimeZoneOffset mins =
      Inr (''+'' @ twoDigits (nat (\<bar>mins\<bar> div 60)) @ twoDigits (nat (\<bar>mins\<bar> mod 60)))"
    using makeTimeZoneOffset_range [of mins] by simp
next
  assume "0 < mins \<and> mins \<le> 720"
  then show "makeTimeZoneOffset mins =
      Inr (''-'' @ twoDigits (nat (\<bar>mins\<bar> div 60)) @ twoDigits (nat (\<bar>mins\<bar> mod 60)))"
    using makeTimeZoneOffset_range [of mins] by simp
next
  assume "getTimezoneOffset obj = mins" and "mins < - 840 \<or> 720 < mins"
  then show "makeNowDateLineTz obj = Inl (Error ''invalid number'')"
    using makeNowDateLineTz_out_of_range [of obj] by simp
next
  fix line
  assume "getTimezoneOffset obj = mins" and "makeNowDateLineTz obj = Inr line"
  then show "\<exists>zone pre. makeTimeZoneOffset mins = Inr zone \<and> line = pre @ '' '' @ zone @ CRLF"
    using makeNowDateLineTz_zone [of obj line] by simp
qed

lemma timezone_token_examples:
  "makeTimeZoneOffset (- 540) = Inr ''+0900''
   \<and> makeTimeZoneOffset 300 = Inr ''-0500''
   \<and> makeTimeZoneOffset 721 = Inl (Error ''invalid number'')
   \<and> makeNowDateLineTz (sampleDate\<lparr>getTimezoneOffset := 721\<rparr>) = Inl (Error ''invalid number'')
   \<and> (\<exists>pre. makeNowDateLineTz sampleDate = Inr (pre @ '' +0900'' @ CRLF))"
proof -
  have t: "twoDigits 9 = ''09''" "twoDigits 0 = ''00''" "twoDigits 5 = ''05''" by code_simp+
  have l: "makeNowDateLineTz sampleDate = Inr (''Date: Tue, 03 Nov 2026 09:05:59 +0900'' @ CRLF)"
    by code_simp
  have z: "getTimezoneOffset sampleDate = - 540" by (simp add: sampleDate_def)
  have a: "makeTimeZoneOffset (- 540) = Inr ''+0900''"
    using timezone_token [of "- 540" sampleDate] t by simp
  have b: "makeTimeZoneOffset 300 = Inr ''-0500''"
    using timezone_token [of 300 sampleDate] t by simp
  have c: "makeTimeZoneOffset 721 = Inl (Error ''invalid number'')"
    using timezone_token [of 721 sampleDate] by simp
  have d: "makeNowDateLineTz (sampleDate\<lparr>getTimezoneOffset := 721\<rparr>) = Inl (Error ''invalid number'')"
    using timezone_token [of 721 "sampleDate\<lparr>getTimezoneOffset := 721\<rparr>"] by simp
  have e: "\<exists>pre. makeNowDateLineTz sampleDate = Inr (pre @ '' +0900'' @ CRLF)"
    using timezone_token [of "- 540" sampleDate] z l a by auto
  from a b c d e show ?thesis by blast
qed

text \<open>
  Claim C9 on the code. \<open>makeNowDateLine\<close>, the generator that \<open>replaceDateLine\<close>
  calls, writes "+" whatever the sign of the offset and checks no range. With
  \<^verbatim>\<open>getTimezoneOffset()\<close> equal to 300, five hours behind UTC, the token is "+-500", where
  the claim says "-0500"; with 900, outside the range, the line ends with "+1500" and no
  error is raised.
\<close>

theorem makeNowDateLine_fixed_plus:
  "makeNowDateLine (sampleRuntime\<lparr>now := sampleDate\<lparr>getTimezoneOffset := 300\<rparr>\<rparr>)
     = ''Date: Tue, 03 Nov 2026 09:05:59 +-500'' @ CRLF
   \<and> makeTimeZoneOffset 300 = Inr ''-0500''
   \<and> makeNowDateLine (sampleRuntime\<lparr>now := sampleDate\<lparr>getTimezoneOffset := 900\<rparr>\<rparr>)
     = ''Date: Tue, 03 Nov 2026 09:05:59 +1500'' @ CRLF
   \<and> makeTimeZoneOffset 900 = Inl (Error ''invalid number'')"
  by code_simp



section \<open>Matching a field name\<close>

lemma matchHeader_startsWith:
  assumes "header \<noteq> []"
  shows "matchHeader line header = Inr (startsWith header line)"
proof (cases "length line < length header")
  case True
  then have "length (take (length header) line) \<noteq> length header" by simp
  then have "\<not> startsWith header line" unfolding startsWith_def by metis
  with True assms show ?thesis by (simp add: matchHeader_def)
next
  case False
  have "list_all (\<lambda>(i, v). Some v = elemAt line (int i)) (enumerate 0 header)
      \<longleftrightarrow> (\<forall>i<length header. header ! i = line ! i)"
  proof
    assume a: "list_all (\<lambda>(i, v). Some v = elemAt line (int i)) (enumerate 0 header)"
    show "\<forall>i<length header. header ! i = line ! i"
    proof (intro allI impI)
      fix i assume i: "i < length header"
      then have "(i, header ! i) \<in> set (enumerate 0 header)" by (simp add: in_set_enumerate_eq)
      with a have "Some (header ! i) = elemAt line (int i)" by (auto simp: list_all_iff)
      then show "header ! i = line ! i" using i False by (simp add: elemAt_def)
    qed
  next
    assume "\<forall>i<length header. header ! i = line ! i"
    then show "list_all (\<lambda>(i, v). Some v = elemAt line (int i)) (enumerate 0 header)"
      using False by (auto simp: list_all_iff in_set_enumerate_eq elemAt_def)
  qed
  also have "\<dots> \<longleftrightarrow> take (length header) line = header"
    using False by (auto simp: list_eq_iff_nth_eq)
  finally show ?thesis using False assms by (simp add: matchHeader_def startsWith_def)
qed

lemma DATE_BYTES_eq: "DATE_BYTES = [68, 97, 116, 101, 58]"
  by code_simp

lemma MESSAGE_ID_BYTES_eq: "MESSAGE_ID_BYTES = [77, 101, 115, 115, 97, 103, 101, 45, 73, 68, 58]"
  by code_simp

lemma isDateLine_pure: "isDateLine line = Inr (dateLine line)"
  by (simp add: isDateLine_def dateLine_def matchHeader_startsWith DATE_BYTES_eq)

lemma isMessageIdLine_pure: "isMessageIdLine line = Inr (messageIdLine line)"
  by (simp add: isMessageIdLine_def messageIdLine_def matchHeader_startsWith MESSAGE_ID_BYTES_eq)

lemma folded_first: "isFoldedLine l \<Longrightarrow> \<exists>b rest. l = b # rest \<and> (b = 32 \<or> b = 9)"
  by (cases l) (auto simp: isFoldedLine_def isWsp_def elemAt_def SPACE_def HTAB_def)

lemma dateLine_first: "dateLine l \<Longrightarrow> \<exists>rest. l = 68 # rest"
  by (cases l) (auto simp: dateLine_def startsWith_def DATE_BYTES_eq)

lemma messageIdLine_first: "messageIdLine l \<Longrightarrow> \<exists>rest. l = 77 # rest"
  by (cases l) (auto simp: messageIdLine_def startsWith_def MESSAGE_ID_BYTES_eq)

lemma folded_not_dateLine: "isFoldedLine l \<Longrightarrow> \<not> dateLine l"
  using folded_first dateLine_first by fastforce

lemma folded_not_messageIdLine: "isFoldedLine l \<Longrightarrow> \<not> messageIdLine l"
  using folded_first messageIdLine_first by fastforce

lemma dateLine_not_messageIdLine: "dateLine l \<Longrightarrow> \<not> messageIdLine l"
  using dateLine_first messageIdLine_first by fastforce

section \<open>Replacing the first matching line\<close>

lemma findIndexE_pure:
  "\<forall>x. p x = Inr (q x) \<Longrightarrow> findIndexE p xs k = Inr (findIndexAux q xs k)"
  by (induction xs arbitrary: k) auto

lemma replaceLine_none:
  assumes "\<forall>x. p x = Inr (q x)" "\<forall>x\<in>set lines. \<not> q x"
  shows "replaceLine lines p mk = Inr lines"
  using assms(2) findIndexE_pure [OF assms(1), of lines 0]
  by (simp add: replaceLine_def findIndexAux_none bindE_def)

lemma replaceLine_found:
  assumes p: "\<forall>x. p x = Inr (q x)" and l: "lines = pre @ d # rest"
    and pre: "\<forall>x\<in>set pre. \<not> q x" and d: "q d"
  shows "replaceLine lines p mk = Inr (pre @ [encode (mk ())] @ dropFoldedLine rest)"
proof -
  have tw: "takeWhile (\<lambda>x. \<not> q x) lines = pre"
    using l pre d by simp
  have "\<exists>x\<in>set lines. q x" using l d by auto
  then have idx: "findIndexAux q lines 0 = int (length pre)"
    using findIndexAux_some [of lines q 0] tw by simp
  have a: "slice lines 0 (int (length pre)) = pre" using l by (simp add: slice_nonneg)
  have b: "sliceFrom lines (int (length pre) + 1) = rest"
    using l by (simp add: sliceFrom_nonneg nat_add_distrib)
  show ?thesis
    using findIndexE_pure [OF p, of lines 0] idx a b by (simp add: replaceLine_def bindE_def Let_def)
qed

lemma split_first:
  "\<exists>x\<in>set xs. q x \<Longrightarrow> \<exists>pre d rest. xs = pre @ d # rest \<and> (\<forall>x\<in>set pre. \<not> q x) \<and> q d"
  by (metis split_list_first_prop)

section \<open>What a replacement keeps\<close>

lemma dropFoldedLine_cases:
  "dropFoldedLine rest = rest \<or> dropFoldedLine rest = dropWhile isFoldedLine rest"
  using dropFoldedLine_all_folded [of rest] dropFoldedLine_dropWhile [of rest] by blast

lemma filter_dropWhile_other:
  "\<forall>l. f l \<longrightarrow> \<not> q l \<Longrightarrow> filter q (dropWhile f xs) = filter q xs"
  by (induction xs) auto

lemma filter_dropFoldedLine:
  "\<forall>l. isFoldedLine l \<longrightarrow> \<not> q l \<Longrightarrow> filter q (dropFoldedLine rest) = filter q rest"
  using dropFoldedLine_cases [of rest] filter_dropWhile_other [of isFoldedLine q rest] by auto

lemma dropWhile_dropWhile_other:
  "\<forall>l. f l \<longrightarrow> \<not> q l \<Longrightarrow>
   dropWhile (\<lambda>l. \<not> q l) (dropWhile f xs) = dropWhile (\<lambda>l. \<not> q l) xs"
  by (induction xs) auto

lemma fieldOf_dropFoldedLine:
  "\<forall>l. isFoldedLine l \<longrightarrow> \<not> q l \<Longrightarrow> fieldOf q (dropFoldedLine rest) = fieldOf q rest"
  using dropFoldedLine_cases [of rest] dropWhile_dropWhile_other [of isFoldedLine q rest]
  by (auto simp: fieldOf_def)

lemma takeWhile_stop: "\<not> P y \<Longrightarrow> takeWhile P (xs @ y # ys) = takeWhile P (xs @ [y])"
  by (induction xs) auto

lemma fieldOf_skip: "\<forall>x\<in>set pre. \<not> q x \<Longrightarrow> fieldOf q (pre @ xs) = fieldOf q xs"
  by (simp add: fieldOf_def)

lemma fieldOf_in_prefix:
  assumes "\<exists>x\<in>set pre. q x" "\<not> isFoldedLine y"
  shows "fieldOf q (pre @ y # ys) = fieldOf q (pre @ [y])"
proof -
  from split_first [OF assms(1)] obtain p1 m p2 where
    s: "pre = p1 @ m # p2" "\<forall>x\<in>set p1. \<not> q x" "q m" by blast
  have "\<And>zs. dropWhile (\<lambda>l. \<not> q l) (pre @ zs) = m # p2 @ zs"
    using s by simp
  then show ?thesis
    using takeWhile_stop [of isFoldedLine y p2 ys] assms(2) by (simp add: fieldOf_def)
qed

lemma replaced_filter_same:
  assumes "\<forall>l. isFoldedLine l \<longrightarrow> \<not> q l" "\<forall>x\<in>set pre. \<not> q x" "q d" "q n"
  shows "filter q (pre @ [n] @ dropFoldedLine rest) = n # filter q rest"
    and "filter q (pre @ d # rest) = d # filter q rest"
  using assms filter_dropFoldedLine [of q rest] by (simp_all add: filter_empty_conv)

lemma replaced_filter_other:
  assumes "\<forall>l. isFoldedLine l \<longrightarrow> \<not> q' l" "\<not> q' d" "\<not> q' n"
  shows "filter q' (pre @ [n] @ dropFoldedLine rest) = filter q' (pre @ d # rest)"
  using assms filter_dropFoldedLine [of q' rest] by simp

lemma replaced_fieldOf_other:
  assumes f: "\<forall>l. isFoldedLine l \<longrightarrow> \<not> q' l" and d: "\<not> q' d" "\<not> isFoldedLine d"
    and n: "\<not> q' n" "\<not> isFoldedLine n"
  shows "fieldOf q' (pre @ [n] @ dropFoldedLine rest) = fieldOf q' (pre @ d # rest)"
proof (cases "\<exists>x\<in>set pre. q' x")
  case True
  have "fieldOf q' (pre @ n # dropFoldedLine rest) = fieldOf q' (pre @ [n])"
    by (rule fieldOf_in_prefix [OF True n(2)])
  also have "\<dots> = fieldOf q' (pre @ [d])"
  proof -
    from split_first [OF True] obtain p1 m p2 where
      s: "pre = p1 @ m # p2" "\<forall>x\<in>set p1. \<not> q' x" "q' m" by blast
    have "\<And>zs. dropWhile (\<lambda>l. \<not> q' l) (pre @ zs) = m # p2 @ zs"
      using s by simp
    then show ?thesis using d(2) n(2) by (simp add: fieldOf_def takeWhile_tail)
  qed
  also have "\<dots> = fieldOf q' (pre @ d # rest)"
    by (rule fieldOf_in_prefix [OF True d(2), symmetric])
  finally show ?thesis by simp
next
  case False
  then have pre: "\<forall>x\<in>set pre. \<not> q' x" by blast
  have "fieldOf q' (pre @ [n] @ dropFoldedLine rest) = fieldOf q' (n # dropFoldedLine rest)"
    using fieldOf_skip [OF pre, of "n # dropFoldedLine rest"] by simp
  also have "\<dots> = fieldOf q' (dropFoldedLine rest)" using n(1) by (simp add: fieldOf_def)
  also have "\<dots> = fieldOf q' rest" by (rule fieldOf_dropFoldedLine [OF f])
  also have "\<dots> = fieldOf q' (d # rest)" using d(1) by (simp add: fieldOf_def)
  also have "\<dots> = fieldOf q' (pre @ d # rest)" by (rule fieldOf_skip [OF pre, symmetric])
  finally show ?thesis .
qed


section \<open>Lists of physical lines\<close>

lemma linesAcc_terminated:
  assumes "terminated l"
  shows "linesAcc cur (l @ bs) = (cur @ l) # linesAcc [] bs"
proof -
  from assms obtain b where b: "l = b @ [LF]" "LF \<notin> set b" by (auto simp: terminated_def)
  have "linesAcc cur (b @ LF # bs) = (cur @ b @ [LF]) # linesAcc [] bs"
    using b(2) by (induction b arbitrary: cur) auto
  with b(1) show ?thesis by simp
qed

lemma linesAcc_nonempty: "linesAcc cur bs \<noteq> []"
  by (induction bs arbitrary: cur) auto

lemma lineList_Cons: "ls \<noteq> [] \<Longrightarrow> lineList (l # ls) = (terminated l \<and> lineList ls)"
  by (cases ls) auto

lemma lineList_tl: "lineList (l # ls) \<Longrightarrow> lineList ls"
  by (cases ls) auto

lemma lineList_linesAcc: "LF \<notin> set cur \<Longrightarrow> lineList (linesAcc cur bs)"
proof (induction bs arbitrary: cur)
  case Nil
  then show ?case by simp
next
  case (Cons b bs)
  show ?case
  proof (cases "b = LF")
    case True
    have "terminated (cur @ [LF])" using Cons.prems by (auto simp: terminated_def)
    moreover have "lineList (linesAcc [] bs)" using Cons.IH [of "[]"] by simp
    ultimately show ?thesis using True by (simp add: lineList_Cons linesAcc_nonempty)
  next
    case False
    then show ?thesis using Cons.IH [of "cur @ [b]"] Cons.prems by simp
  qed
qed

lemma lineList_roundtrip:
  "lineList ls \<Longrightarrow> linesAcc [] (concat ls) = ls \<or> linesAcc [] (concat ls) = ls @ [[]]"
proof (induction ls rule: lineList.induct)
  case 1
  then show ?case by simp
next
  case (2 l)
  then show ?case using linesAcc_terminated [of l "[]" "[]"] by (auto simp: linesAcc_noLf)
next
  case (3 l l' ls)
  then have t: "terminated l" and r: "lineList (l' # ls)" by simp_all
  have "linesAcc [] (concat (l # l' # ls)) = l # linesAcc [] (concat (l' # ls))"
    using linesAcc_terminated [OF t, of "[]" "concat (l' # ls)"] by simp
  with 3(1) [OF r] show ?case by auto
qed

lemma lineList_append: "\<forall>x\<in>set xs. terminated x \<Longrightarrow> lineList ys \<Longrightarrow> lineList (xs @ ys)"
proof (induction xs)
  case Nil
  then show ?case by simp
next
  case (Cons x xs)
  then have "lineList (xs @ ys)" by simp
  then show ?case using Cons.prems(1) by (cases "xs @ ys") auto
qed

lemma lineList_split: "lineList (pre @ d # rest) \<Longrightarrow> (\<forall>x\<in>set pre. terminated x) \<and> lineList rest"
proof (induction pre)
  case Nil
  then show ?case using lineList_tl by auto
next
  case (Cons x pre)
  then have "terminated x \<and> lineList (pre @ d # rest)" by (simp add: lineList_Cons)
  with Cons.IH show ?case by simp
qed

lemma lineList_dropWhile: "lineList xs \<Longrightarrow> lineList (dropWhile P xs)"
  by (induction xs) (auto dest: lineList_tl)

lemma lineList_dropFoldedLine: "lineList xs \<Longrightarrow> lineList (dropFoldedLine xs)"
  using dropFoldedLine_cases [of xs] lineList_dropWhile [of xs isFoldedLine] by auto

lemma lineList_replaced:
  assumes "lineList (pre @ d # rest)" "terminated n"
  shows "lineList (pre @ [n] @ dropFoldedLine rest)"
proof -
  from lineList_split [OF assms(1)] have p: "\<forall>x\<in>set pre. terminated x" and r: "lineList rest"
    by simp_all
  have "lineList ((pre @ [n]) @ dropFoldedLine rest)"
    using p assms(2) lineList_dropFoldedLine [OF r] by (intro lineList_append) auto
  then show ?thesis by simp
qed

lemma filter_lines_of_concat:
  assumes "lineList ls" "\<not> q []"
  shows "filter q (getRawLines (concat ls)) = filter q ls"
  using lineList_roundtrip [OF assms(1)] assms(2) by (auto simp: getRawLines_linesAcc)

lemma fieldOf_snoc_empty:
  assumes "\<not> q []"
  shows "fieldOf q (ls @ [[]]) = fieldOf q ls"
proof (cases "\<exists>x\<in>set ls. q x")
  case True
  from split_first [OF True] obtain p1 m p2 where
    s: "ls = p1 @ m # p2" "\<forall>x\<in>set p1. \<not> q x" "q m" by blast
  have "\<not> isFoldedLine []" by (simp add: isFoldedLine_def isWsp_def elemAt_def SPACE_def HTAB_def)
  then have "takeWhile isFoldedLine (p2 @ [[]]) = takeWhile isFoldedLine p2"
    by (simp add: takeWhile_tail)
  then show ?thesis using s by (simp add: fieldOf_def)
next
  case False
  then have a: "dropWhile (\<lambda>l. \<not> q l) ls = []" by simp
  have b: "dropWhile (\<lambda>l. \<not> q l) (ls @ [[]]) = []" using False assms by simp
  show ?thesis unfolding fieldOf_def a b by simp
qed

lemma fieldOf_lines_of_concat:
  assumes "lineList ls" "\<not> q []"
  shows "fieldOf q (getRawLines (concat ls)) = fieldOf q ls"
  using lineList_roundtrip [OF assms(1)] fieldOf_snoc_empty [of q ls] assms(2)
  by (auto simp: getRawLines_linesAcc)

lemma lineList_getRawLines: "lineList (getRawLines h)"
  by (simp add: getRawLines_linesAcc lineList_linesAcc)


section \<open>The generated lines\<close>

lemma encode_append: "encode (a @ b) = encode a @ encode b"
  by (simp add: encode_def)

lemma char_10: "of_char c = (10::nat) \<Longrightarrow> c = CHR 0x0A"
proof -
  assume "of_char c = (10::nat)"
  then have "char_of (of_char c :: nat) = char_of (10::nat)" by simp
  moreover have "char_of (10::nat) = CHR 0x0A" by code_simp
  ultimately show ?thesis by simp
qed

lemma byte_of_nat_10: "n < 256 \<Longrightarrow> (of_nat n :: byte) = 10 \<Longrightarrow> n = 10"
proof -
  assume n: "n < 256" and e: "(of_nat n :: byte) = 10"
  have "unat (of_nat n :: byte) = n" using n by (simp add: unat_of_nat)
  with e show "n = 10" by simp
qed

lemma of_char_less: "(of_char c :: nat) < 256"
  by (rule nat_of_char_less_256)

lemma encodeChar_LF: "LF \<in> set (encodeChar c) \<Longrightarrow> c = CHR 0x0A"
proof -
  assume a: "LF \<in> set (encodeChar c)"
  let ?n = "of_char c :: nat"
  have lt: "?n < 256" by (rule of_char_less)
  show ?thesis
  proof (cases "?n < 128")
    case True
    with a have "(of_nat ?n :: byte) = 10" by (simp add: encodeChar_def LF_def)
    then have "?n = 10" using lt byte_of_nat_10 by blast
    then show ?thesis by (rule char_10)
  next
    case False
    have d: "?n div 64 < 4" using lt by arith
    have "192 + ?n div 64 < 256" "192 + ?n div 64 \<noteq> 10" using d by simp_all
    then have x: "(of_nat (192 + ?n div 64) :: byte) \<noteq> 10" using byte_of_nat_10 by blast
    have "128 + ?n mod 64 < 256" "128 + ?n mod 64 \<noteq> 10" by simp_all
    then have y: "(of_nat (128 + ?n mod 64) :: byte) \<noteq> 10" using byte_of_nat_10 by blast
    from a False x y show ?thesis by (simp add: encodeChar_def LF_def Let_def)
  qed
qed

lemma encode_LF: "CHR 0x0A \<notin> set s \<Longrightarrow> LF \<notin> set (encode s)"
  using encodeChar_LF by (auto simp: encode_def)

lemma encode_CRLF: "encode CRLF = [CR, LF]"
  by code_simp

lemma encode_line_terminated:
  "CHR 0x0A \<notin> set s \<Longrightarrow> terminated (encode (s @ CRLF))"
proof -
  assume "CHR 0x0A \<notin> set s"
  then have "LF \<notin> set (encode s @ [CR])" using encode_LF by (simp add: CR_def LF_def)
  moreover have "encode (s @ CRLF) = (encode s @ [CR]) @ [LF]"
    by (simp add: encode_append encode_CRLF)
  ultimately show ?thesis unfolding terminated_def by blast
qed

lemma digitChar_not_LF: "n < 10 \<Longrightarrow> digitChar n \<noteq> CHR 0x0A"
proof
  assume n: "n < 10" and e: "digitChar n = CHR 0x0A"
  then have "of_char (char_of (48 + n)) = (of_char (CHR 0x0A) :: nat)" by (simp add: digitChar_def)
  then have "(48 + n) mod 256 = 10" by simp
  with n show False by simp
qed

lemma digitsOf_no_LF: "CHR 0x0A \<notin> set (digitsOf n)"
proof (induction n rule: digitsOf.induct)
  case (1 n)
  show ?case
  proof (cases "n < 10")
    case True
    then show ?thesis using digitChar_not_LF [OF True] by (auto simp: digitsOf.simps [of n])
  next
    case False
    have "digitChar (n mod 10) \<noteq> CHR 0x0A" by (rule digitChar_not_LF) simp
    with 1 [OF False] False show ?thesis by (auto simp: digitsOf.simps [of n])
  qed
qed

lemma intToString_no_LF: "CHR 0x0A \<notin> set (intToString i)"
  using digitsOf_no_LF by (simp add: intToString_def)

lemma numberToString_no_LF: "plainFormat rt \<Longrightarrow> CHR 0x0A \<notin> set (numberToString rt q)"
  using intToString_no_LF by (simp add: numberToString_def plainFormat_def)

lemma set_slice: "set (slice xs a b) \<subseteq> set xs"
  unfolding slice_def Let_def by (meson set_take_subset set_drop_subset subset_trans)

lemma lzero_no_LF: "plainFormat rt \<Longrightarrow> CHR 0x0A \<notin> set (lzero rt q)"
proof -
  assume p: "plainFormat rt"
  have "set (lzero rt q) \<subseteq> set (''0'' @ numberToString rt q)"
    unfolding lzero_def sliceFrom_def by (rule set_slice)
  then show ?thesis using numberToString_no_LF [OF p, of q] by auto
qed

lemma showElem_no_LF:
  "\<forall>s\<in>set names. CHR 0x0A \<notin> set s \<Longrightarrow> CHR 0x0A \<notin> set (showElem (elemAt names i))"
  by (auto simp: showElem_def elemAt_def)

lemma dayNames_no_LF: "\<forall>s\<in>set dayNames. CHR 0x0A \<notin> set s"
  by (simp add: dayNames_def)

lemma monthNames_no_LF: "\<forall>s\<in>set monthNames. CHR 0x0A \<notin> set s"
  by (simp add: monthNames_def)

lemma makeNowDateLine_form:
  assumes "plainFormat rt"
  shows "\<exists>body. makeNowDateLine rt = ''Date:'' @ body @ CRLF \<and> CHR 0x0A \<notin> set body"
proof -
  note n = lzero_no_LF [OF assms] numberToString_no_LF [OF assms]
    showElem_no_LF [OF dayNames_no_LF] showElem_no_LF [OF monthNames_no_LF]
  let ?obj = "now rt"
  let ?off = "- getTimezoneOffset ?obj"
  let ?body = "'' '' @ showElem (elemAt dayNames (getDay ?obj)) @ '', ''
      @ lzero rt (of_int (getDate ?obj)) @ '' ''
      @ showElem (elemAt monthNames (getMonth ?obj)) @ '' ''
      @ numberToString rt (of_int (getFullYear ?obj)) @ '' ''
      @ lzero rt (of_int (getHours ?obj)) @ '':'' @ lzero rt (of_int (getMinutes ?obj)) @ '':''
      @ lzero rt (of_int (getSeconds ?obj)) @ '' +''
      @ lzero rt (of_int ?off / 60) @ lzero rt (of_int (jsRem ?off 60))"
  have "makeNowDateLine rt = ''Date:'' @ ?body @ CRLF"
    by (simp add: makeNowDateLine_def Let_def)
  moreover have "CHR 0x0A \<notin> set ?body" using n by simp
  ultimately show ?thesis by blast
qed

lemma alphabet_no_LF: "CHR 0x0A \<notin> set alphabet"
  by (simp add: alphabet_def)

lemma charAt_subset: "set (charAt s i) \<subseteq> set s"
  by (auto simp: charAt_def elemAt_def)

lemma makeRandomMessageIdLine_form:
  "\<exists>body. makeRandomMessageIdLine rt = ''Message-ID:'' @ body @ CRLF \<and> CHR 0x0A \<notin> set body"
proof -
  let ?r = "concat (map (\<lambda>k. charAt alphabet (randomFloor rt k (length alphabet))) [0..<62])"
  have "set ?r \<subseteq> set alphabet" using charAt_subset by fastforce
  then have "CHR 0x0A \<notin> set ?r" using alphabet_no_LF by blast
  then have "CHR 0x0A \<notin> set ('' <'' @ ?r @ ''>'')" by simp
  moreover have "makeRandomMessageIdLine rt = ''Message-ID:'' @ ('' <'' @ ?r @ ''>'') @ CRLF"
    by (simp add: makeRandomMessageIdLine_def Let_def)
  ultimately show ?thesis by blast
qed

lemma newDateLine:
  assumes "plainFormat rt"
  shows "terminated (encode (makeNowDateLine rt))" and "dateLine (encode (makeNowDateLine rt))"
proof -
  from makeNowDateLine_form [OF assms] obtain body where
    b: "makeNowDateLine rt = ''Date:'' @ body @ CRLF" "CHR 0x0A \<notin> set body" by blast
  have "CHR 0x0A \<notin> set (''Date:'' @ body)" using b(2) by simp
  from encode_line_terminated [OF this] show "terminated (encode (makeNowDateLine rt))"
    using b(1) by simp
  have "encode (makeNowDateLine rt) = encode (''Date:'' @ (body @ CRLF))"
    using b(1) by simp
  also have "\<dots> = DATE_BYTES @ encode (body @ CRLF)"
    unfolding DATE_BYTES_def by (rule encode_append)
  finally show "dateLine (encode (makeNowDateLine rt))"
    by (simp add: dateLine_def startsWith_def)
qed

lemma newMessageIdLine:
  shows "terminated (encode (makeRandomMessageIdLine rt))"
    and "messageIdLine (encode (makeRandomMessageIdLine rt))"
proof -
  from makeRandomMessageIdLine_form [of rt] obtain body where
    b: "makeRandomMessageIdLine rt = ''Message-ID:'' @ body @ CRLF" "CHR 0x0A \<notin> set body" by blast
  have "CHR 0x0A \<notin> set (''Message-ID:'' @ body)" using b(2) by simp
  from encode_line_terminated [OF this] show "terminated (encode (makeRandomMessageIdLine rt))"
    using b(1) by simp
  have "encode (makeRandomMessageIdLine rt) = encode (''Message-ID:'' @ (body @ CRLF))"
    using b(1) by simp
  also have "\<dots> = MESSAGE_ID_BYTES @ encode (body @ CRLF)"
    unfolding MESSAGE_ID_BYTES_def by (rule encode_append)
  finally show "messageIdLine (encode (makeRandomMessageIdLine rt))"
    by (simp add: messageIdLine_def startsWith_def)
qed


section \<open>The effect of a replacement\<close>


section \<open>One replacement\<close>

lemma replaceLine_effect:
  assumes p: "\<forall>x. p x = Inr (q x)"
    and fq: "\<forall>l. isFoldedLine l \<longrightarrow> \<not> q l" and fq': "\<forall>l. isFoldedLine l \<longrightarrow> \<not> q' l"
    and dis: "\<forall>l. q l \<longrightarrow> \<not> q' l"
    and n: "n = encode (mk ())" "q n" "terminated n"
    and ll: "lineList lines"
  shows "\<exists>R. replaceLine lines p mk = Inr R \<and> lineList R
      \<and> filter q R = firstReplaced n (filter q lines)
      \<and> filter q' R = filter q' lines
      \<and> fieldOf q' R = fieldOf q' lines
      \<and> (R = lines \<or>
          (\<exists>pre d conts post. lines = pre @ d # conts @ post \<and> (\<forall>x\<in>set pre. \<not> q x) \<and> q d
             \<and> (\<forall>c\<in>set conts. isFoldedLine c) \<and> R = pre @ [n] @ post))"
proof (cases "\<exists>x\<in>set lines. q x")
  case False
  then have none: "\<forall>x\<in>set lines. \<not> q x" by blast
  then have "filter q lines = []" by (simp add: filter_empty_conv)
  then show ?thesis
    using replaceLine_none [OF p none, of mk] ll by (simp add: firstReplaced_def)
next
  case True
  from split_first [OF True] obtain pre d rest where
    s: "lines = pre @ d # rest" "\<forall>x\<in>set pre. \<not> q x" "q d" by blast
  let ?R = "pre @ [n] @ dropFoldedLine rest"
  have r: "replaceLine lines p mk = Inr ?R"
    using replaceLine_found [OF p s(1) s(2) s(3), of mk] n(1) by simp
  have l: "lineList ?R" using lineList_replaced [of pre d rest n] ll s(1) n(3) by simp
  have a: "filter q ?R = firstReplaced n (filter q lines)"
    using replaced_filter_same [OF fq s(2) s(3) n(2), of rest] s(1) by (simp add: firstReplaced_def)
  have nd: "\<not> q' d" "\<not> q' n" "\<not> isFoldedLine d" "\<not> isFoldedLine n"
    using dis fq s(3) n(2) by auto
  have b: "filter q' ?R = filter q' lines"
    using replaced_filter_other [OF fq' nd(1) nd(2), of pre rest] s(1) by simp
  have c: "fieldOf q' ?R = fieldOf q' lines"
    using replaced_fieldOf_other [OF fq' nd(1) nd(3) nd(2) nd(4), of pre rest] s(1) by simp
  have "\<exists>conts post. rest = conts @ post \<and> (\<forall>c\<in>set conts. isFoldedLine c) \<and> dropFoldedLine rest = post"
  proof (cases "dropFoldedLine rest = rest")
    case True
    then have "rest = [] @ rest \<and> (\<forall>c\<in>set []. isFoldedLine c) \<and> dropFoldedLine rest = rest"
      by simp
    then show ?thesis by blast
  next
    case False
    then have "dropFoldedLine rest = dropWhile isFoldedLine rest"
      using dropFoldedLine_cases [of rest] by simp
    moreover have "rest = takeWhile isFoldedLine rest @ dropWhile isFoldedLine rest" by simp
    moreover have "\<forall>c\<in>set (takeWhile isFoldedLine rest). isFoldedLine c"
      by (auto dest: set_takeWhileD)
    ultimately show ?thesis by blast
  qed
  then obtain conts post where
    cp: "rest = conts @ post" "\<forall>c\<in>set conts. isFoldedLine c" "dropFoldedLine rest = post" by blast
  have "lines = pre @ d # conts @ post \<and> (\<forall>x\<in>set pre. \<not> q x) \<and> q d
      \<and> (\<forall>c\<in>set conts. isFoldedLine c) \<and> ?R = pre @ [n] @ post"
    using s cp by simp
  then have f: "\<exists>pre d conts post. lines = pre @ d # conts @ post \<and> (\<forall>x\<in>set pre. \<not> q x) \<and> q d
             \<and> (\<forall>c\<in>set conts. isFoldedLine c) \<and> ?R = pre @ [n] @ post"
    by blast
  show ?thesis
  proof (intro exI [of _ ?R] conjI)
    show "replaceLine lines p mk = Inr ?R" by (rule r)
    show "lineList ?R" by (rule l)
    show "filter q ?R = firstReplaced n (filter q lines)" by (rule a)
    show "filter q' ?R = filter q' lines" by (rule b)
    show "fieldOf q' ?R = fieldOf q' lines" by (rule c)
    show "?R = lines \<or>
          (\<exists>pre d conts post. lines = pre @ d # conts @ post \<and> (\<forall>x\<in>set pre. \<not> q x) \<and> q d
             \<and> (\<forall>c\<in>set conts. isFoldedLine c) \<and> ?R = pre @ [n] @ post)"
      using f by (rule disjI2)
  qed
qed


lemma replaceDateLine_effect:
  assumes "plainFormat rt" "lineList lines"
  shows "\<exists>R. replaceDateLine rt lines = Inr R \<and> lineList R
      \<and> filter dateLine R = firstReplaced (encode (makeNowDateLine rt)) (filter dateLine lines)
      \<and> filter messageIdLine R = filter messageIdLine lines
      \<and> fieldOf messageIdLine R = fieldOf messageIdLine lines
      \<and> (R = lines \<or>
          (\<exists>pre d conts post. lines = pre @ d # conts @ post \<and> (\<forall>x\<in>set pre. \<not> dateLine x)
             \<and> dateLine d \<and> (\<forall>c\<in>set conts. isFoldedLine c)
             \<and> R = pre @ [encode (makeNowDateLine rt)] @ post))"
  unfolding replaceDateLine_def
proof (rule replaceLine_effect)
  show "\<forall>x. isDateLine x = Inr (dateLine x)" by (simp add: isDateLine_pure)
  show "\<forall>l. isFoldedLine l \<longrightarrow> \<not> dateLine l" by (simp add: folded_not_dateLine)
  show "\<forall>l. isFoldedLine l \<longrightarrow> \<not> messageIdLine l" by (simp add: folded_not_messageIdLine)
  show "\<forall>l. dateLine l \<longrightarrow> \<not> messageIdLine l" by (simp add: dateLine_not_messageIdLine)
  show "encode (makeNowDateLine rt) = encode (makeNowDateLine rt)" ..
  show "dateLine (encode (makeNowDateLine rt))" by (rule newDateLine(2) [OF assms(1)])
  show "terminated (encode (makeNowDateLine rt))" by (rule newDateLine(1) [OF assms(1)])
  show "lineList lines" by (rule assms(2))
qed

lemma replaceMessageIdLine_effect:
  assumes "lineList lines"
  shows "\<exists>R. replaceMessageIdLine rt lines = Inr R \<and> lineList R
      \<and> filter messageIdLine R
          = firstReplaced (encode (makeRandomMessageIdLine rt)) (filter messageIdLine lines)
      \<and> filter dateLine R = filter dateLine lines
      \<and> fieldOf dateLine R = fieldOf dateLine lines
      \<and> (R = lines \<or>
          (\<exists>pre d conts post. lines = pre @ d # conts @ post \<and> (\<forall>x\<in>set pre. \<not> messageIdLine x)
             \<and> messageIdLine d \<and> (\<forall>c\<in>set conts. isFoldedLine c)
             \<and> R = pre @ [encode (makeRandomMessageIdLine rt)] @ post))"
  unfolding replaceMessageIdLine_def
proof (rule replaceLine_effect)
  show "\<forall>x. isMessageIdLine x = Inr (messageIdLine x)" by (simp add: isMessageIdLine_pure)
  show "\<forall>l. isFoldedLine l \<longrightarrow> \<not> messageIdLine l" by (simp add: folded_not_messageIdLine)
  show "\<forall>l. isFoldedLine l \<longrightarrow> \<not> dateLine l" by (simp add: folded_not_dateLine)
  show "\<forall>l. messageIdLine l \<longrightarrow> \<not> dateLine l" using dateLine_not_messageIdLine by blast
  show "encode (makeRandomMessageIdLine rt) = encode (makeRandomMessageIdLine rt)" ..
  show "messageIdLine (encode (makeRandomMessageIdLine rt))" by (rule newMessageIdLine(2))
  show "terminated (encode (makeRandomMessageIdLine rt))" by (rule newMessageIdLine(1))
  show "lineList lines" by (rule assms)
qed

lemma not_dateLine_Nil: "\<not> dateLine []"
  by (simp add: dateLine_def startsWith_def DATE_BYTES_eq)

lemma not_messageIdLine_Nil: "\<not> messageIdLine []"
  by (simp add: messageIdLine_def startsWith_def MESSAGE_ID_BYTES_eq)


section \<open>The header rewrite\<close>

lemma firstReplaced_length: "length (firstReplaced n ls) = length ls"
  by (cases ls) (simp_all add: firstReplaced_def)

lemma replaceHeader_date_only:
  "replaceHeader rt h True False
     = bindE (replaceDateLine rt (getRawLines h)) (\<lambda>ls. Inr (concatBytes ls))"
  by (simp add: replaceHeader_def Let_def)

lemma replaceHeader_messageId_only:
  "replaceHeader rt h False True
     = bindE (replaceMessageIdLine rt (getRawLines h)) (\<lambda>ls. Inr (concatBytes ls))"
  by (simp add: replaceHeader_def Let_def)

lemma replaceHeader_both_flags:
  "replaceHeader rt h True True
     = bindE (bindE (replaceDateLine rt (getRawLines h)) (replaceMessageIdLine rt))
         (\<lambda>ls. Inr (concatBytes ls))"
  by (simp add: replaceHeader_def Let_def)

lemma concat_getRawLines: "concat (getRawLines h) = h"
  by (simp add: getRawLines_linesAcc concat_linesAcc)

text \<open>
  Claim C2. For every header, \<open>replaceHeader\<close> with only the Date flag set leaves the
  Message-ID field, its line and its folded continuation lines, as it was, and with only the
  Message-ID flag set leaves the Date field as it was. In each case the output is the
  input, or the input with the first line of the selected field and folded lines that follow
  it replaced by the generated line, everything before and after kept byte for byte. The
  Date case supposes that the runtime renders numbers without line feeds.
\<close>

theorem replaceHeader_other_field:
  "(plainFormat rt \<longrightarrow>
     (\<exists>out. replaceHeader rt h True False = Inr out
        \<and> fieldIn messageIdLine out = fieldIn messageIdLine h
        \<and> (out = h \<or>
            (\<exists>pre d conts post. getRawLines h = pre @ d # conts @ post
               \<and> (\<forall>x\<in>set pre. \<not> dateLine x) \<and> dateLine d \<and> (\<forall>c\<in>set conts. isFoldedLine c)
               \<and> out = concat pre @ encode (makeNowDateLine rt) @ concat post))))
   \<and> (\<exists>out. replaceHeader rt h False True = Inr out
        \<and> fieldIn dateLine out = fieldIn dateLine h
        \<and> (out = h \<or>
            (\<exists>pre d conts post. getRawLines h = pre @ d # conts @ post
               \<and> (\<forall>x\<in>set pre. \<not> messageIdLine x) \<and> messageIdLine d
               \<and> (\<forall>c\<in>set conts. isFoldedLine c)
               \<and> out = concat pre @ encode (makeRandomMessageIdLine rt) @ concat post)))"
proof (intro conjI impI)
  assume pf: "plainFormat rt"
  from replaceDateLine_effect [OF pf lineList_getRawLines, of h] obtain R where
    R: "replaceDateLine rt (getRawLines h) = Inr R" "lineList R"
       "fieldOf messageIdLine R = fieldOf messageIdLine (getRawLines h)"
       "R = getRawLines h \<or>
          (\<exists>pre d conts post. getRawLines h = pre @ d # conts @ post \<and> (\<forall>x\<in>set pre. \<not> dateLine x)
             \<and> dateLine d \<and> (\<forall>c\<in>set conts. isFoldedLine c)
             \<and> R = pre @ [encode (makeNowDateLine rt)] @ post)"
    by blast
  have out: "replaceHeader rt h True False = Inr (concat R)"
    using R(1) by (simp add: replaceHeader_date_only bindE_def concatBytes_concat)
  have fld: "fieldIn messageIdLine (concat R) = fieldIn messageIdLine h"
    using fieldOf_lines_of_concat [of R messageIdLine] R(2) not_messageIdLine_Nil R(3) by (simp add: fieldIn_def)
  have frame: "concat R = h \<or>
            (\<exists>pre d conts post. getRawLines h = pre @ d # conts @ post
               \<and> (\<forall>x\<in>set pre. \<not> dateLine x) \<and> dateLine d \<and> (\<forall>c\<in>set conts. isFoldedLine c)
               \<and> concat R = concat pre @ encode (makeNowDateLine rt) @ concat post)"
    using R(4)
  proof
    assume "R = getRawLines h"
    then show ?thesis by (simp add: concat_getRawLines)
  next
    assume "\<exists>pre d conts post. getRawLines h = pre @ d # conts @ post \<and> (\<forall>x\<in>set pre. \<not> dateLine x)
             \<and> dateLine d \<and> (\<forall>c\<in>set conts. isFoldedLine c)
             \<and> R = pre @ [encode (makeNowDateLine rt)] @ post"
    then obtain pre d conts post where
      "getRawLines h = pre @ d # conts @ post" "\<forall>x\<in>set pre. \<not> dateLine x" "dateLine d"
      "\<forall>c\<in>set conts. isFoldedLine c" "R = pre @ [encode (makeNowDateLine rt)] @ post"
      by blast
    moreover from this(5) have "concat R = concat pre @ encode (makeNowDateLine rt) @ concat post"
      by simp
    ultimately show ?thesis by blast
  qed
  from out fld frame
  show "\<exists>out. replaceHeader rt h True False = Inr out
        \<and> fieldIn messageIdLine out = fieldIn messageIdLine h
        \<and> (out = h \<or>
            (\<exists>pre d conts post. getRawLines h = pre @ d # conts @ post
               \<and> (\<forall>x\<in>set pre. \<not> dateLine x) \<and> dateLine d \<and> (\<forall>c\<in>set conts. isFoldedLine c)
               \<and> out = concat pre @ encode (makeNowDateLine rt) @ concat post))"
    by (intro exI [of _ "concat R"] conjI)
next
  from replaceMessageIdLine_effect [OF lineList_getRawLines, of rt h] obtain R where
    R: "replaceMessageIdLine rt (getRawLines h) = Inr R" "lineList R"
       "fieldOf dateLine R = fieldOf dateLine (getRawLines h)"
       "R = getRawLines h \<or>
          (\<exists>pre d conts post. getRawLines h = pre @ d # conts @ post
             \<and> (\<forall>x\<in>set pre. \<not> messageIdLine x)
             \<and> messageIdLine d \<and> (\<forall>c\<in>set conts. isFoldedLine c)
             \<and> R = pre @ [encode (makeRandomMessageIdLine rt)] @ post)"
    by blast
  have out: "replaceHeader rt h False True = Inr (concat R)"
    using R(1) by (simp add: replaceHeader_messageId_only bindE_def concatBytes_concat)
  have fld: "fieldIn dateLine (concat R) = fieldIn dateLine h"
    using fieldOf_lines_of_concat [of R dateLine] R(2) not_dateLine_Nil R(3) by (simp add: fieldIn_def)
  have frame: "concat R = h \<or>
            (\<exists>pre d conts post. getRawLines h = pre @ d # conts @ post
               \<and> (\<forall>x\<in>set pre. \<not> messageIdLine x) \<and> messageIdLine d
               \<and> (\<forall>c\<in>set conts. isFoldedLine c)
               \<and> concat R = concat pre @ encode (makeRandomMessageIdLine rt) @ concat post)"
    using R(4)
  proof
    assume "R = getRawLines h"
    then show ?thesis by (simp add: concat_getRawLines)
  next
    assume "\<exists>pre d conts post. getRawLines h = pre @ d # conts @ post
             \<and> (\<forall>x\<in>set pre. \<not> messageIdLine x)
             \<and> messageIdLine d \<and> (\<forall>c\<in>set conts. isFoldedLine c)
             \<and> R = pre @ [encode (makeRandomMessageIdLine rt)] @ post"
    then obtain pre d conts post where
      "getRawLines h = pre @ d # conts @ post" "\<forall>x\<in>set pre. \<not> messageIdLine x" "messageIdLine d"
      "\<forall>c\<in>set conts. isFoldedLine c" "R = pre @ [encode (makeRandomMessageIdLine rt)] @ post"
      by blast
    moreover from this(5)
    have "concat R = concat pre @ encode (makeRandomMessageIdLine rt) @ concat post"
      by simp
    ultimately show ?thesis by blast
  qed
  from out fld frame
  show "\<exists>out. replaceHeader rt h False True = Inr out
        \<and> fieldIn dateLine out = fieldIn dateLine h
        \<and> (out = h \<or>
            (\<exists>pre d conts post. getRawLines h = pre @ d # conts @ post
               \<and> (\<forall>x\<in>set pre. \<not> messageIdLine x) \<and> messageIdLine d
               \<and> (\<forall>c\<in>set conts. isFoldedLine c)
               \<and> out = concat pre @ encode (makeRandomMessageIdLine rt) @ concat post))"
    by (intro exI [of _ "concat R"] conjI)
qed

text \<open>
  Claim C1, as amended. For every header, with both flags set the physical lines of the
  output that begin with "Date:" are those of the input with the first one replaced by the
  generated Date line, and likewise for "Message-ID:". So the output has as many such
  lines as the input: exactly one of each when the input has exactly one of each, however
  the fields were folded, and none where the input has none.
\<close>

theorem replaceHeader_both:
  assumes "plainFormat rt"
  shows "\<exists>out. replaceHeader rt h True True = Inr out
      \<and> physicalLines dateLine out
          = firstReplaced (encode (makeNowDateLine rt)) (physicalLines dateLine h)
      \<and> physicalLines messageIdLine out
          = firstReplaced (encode (makeRandomMessageIdLine rt)) (physicalLines messageIdLine h)
      \<and> length (physicalLines dateLine out) = length (physicalLines dateLine h)
      \<and> length (physicalLines messageIdLine out) = length (physicalLines messageIdLine h)"
proof -
  from replaceDateLine_effect [OF assms lineList_getRawLines, of h] obtain R1 where
    R1: "replaceDateLine rt (getRawLines h) = Inr R1" "lineList R1"
        "filter dateLine R1
           = firstReplaced (encode (makeNowDateLine rt)) (filter dateLine (getRawLines h))"
        "filter messageIdLine R1 = filter messageIdLine (getRawLines h)"
    by blast
  from replaceMessageIdLine_effect [OF R1(2), of rt] obtain R2 where
    R2: "replaceMessageIdLine rt R1 = Inr R2" "lineList R2"
        "filter messageIdLine R2
           = firstReplaced (encode (makeRandomMessageIdLine rt)) (filter messageIdLine R1)"
        "filter dateLine R2 = filter dateLine R1"
    by blast
  have out: "replaceHeader rt h True True = Inr (concat R2)"
    using R1(1) R2(1) by (simp add: replaceHeader_both_flags bindE_def concatBytes_concat)
  have d: "physicalLines dateLine (concat R2)
      = firstReplaced (encode (makeNowDateLine rt)) (physicalLines dateLine h)"
    using filter_lines_of_concat [of R2 dateLine] R2(2) not_dateLine_Nil R2(4) R1(3)
    by (simp add: physicalLines_def)
  have m: "physicalLines messageIdLine (concat R2)
      = firstReplaced (encode (makeRandomMessageIdLine rt)) (physicalLines messageIdLine h)"
    using filter_lines_of_concat [of R2 messageIdLine] R2(2) not_messageIdLine_Nil R2(3) R1(4)
    by (simp add: physicalLines_def)
  have dl: "length (physicalLines dateLine (concat R2)) = length (physicalLines dateLine h)"
    by (simp only: d firstReplaced_length)
  have ml: "length (physicalLines messageIdLine (concat R2)) = length (physicalLines messageIdLine h)"
    by (simp only: m firstReplaced_length)
  from out d m dl ml show ?thesis by (intro exI [of _ "concat R2"] conjI)
qed


theorem replaceHeader_other_field_witness:
  "plainFormat sampleRuntime
   \<and> fieldIn messageIdLine sampleHeader
        = Some [encode ''Message-ID: <b0e5@ah62.example.jp>'' @ [CR, LF]]
   \<and> fieldIn dateLine sampleHeader
        = Some [encode ''Date:'' @ [CR, LF], encode '' Sun, 26 Jul 2020'' @ [CR, LF]]
   \<and> (\<exists>out. replaceHeader sampleRuntime sampleHeader True False = Inr out
          \<and> fieldIn messageIdLine out = fieldIn messageIdLine sampleHeader)
   \<and> (\<exists>out. replaceHeader sampleRuntime sampleHeader False True = Inr out
          \<and> fieldIn dateLine out = fieldIn dateLine sampleHeader)"
proof -
  have p: "plainFormat sampleRuntime" by (simp add: plainFormat_def sampleRuntime_def)
  have m: "fieldIn messageIdLine sampleHeader
        = Some [encode ''Message-ID: <b0e5@ah62.example.jp>'' @ [CR, LF]]"
    by code_simp
  have d: "fieldIn dateLine sampleHeader
        = Some [encode ''Date:'' @ [CR, LF], encode '' Sun, 26 Jul 2020'' @ [CR, LF]]"
    by code_simp
  from p m d replaceHeader_other_field [of sampleRuntime sampleHeader] show ?thesis by blast
qed

theorem replaceHeader_both_witness:
  "plainFormat sampleRuntime
   \<and> length (physicalLines dateLine sampleHeader) = 1
   \<and> length (physicalLines messageIdLine sampleHeader) = 1
   \<and> (\<exists>out. replaceHeader sampleRuntime sampleHeader True True = Inr out
          \<and> length (physicalLines dateLine out) = 1
          \<and> length (physicalLines messageIdLine out) = 1)"
proof -
  have p: "plainFormat sampleRuntime" by (simp add: plainFormat_def sampleRuntime_def)
  have d: "length (physicalLines dateLine sampleHeader) = 1" by code_simp
  have m: "length (physicalLines messageIdLine sampleHeader) = 1" by code_simp
  from replaceHeader_both [OF p, of sampleHeader] d m p show ?thesis by auto
qed

text \<open>
  Claim C1 as stated fails on a header with neither field: it comes back unchanged, with
  no Date line and no Message-ID line.
\<close>

theorem replaceHeader_both_counterexample:
  "replaceHeader sampleRuntime (encode ''To: a002@ah62.example.jp'') True True
     = Inr (encode ''To: a002@ah62.example.jp'')
   \<and> physicalLines dateLine (encode ''To: a002@ah62.example.jp'') = []
   \<and> physicalLines messageIdLine (encode ''To: a002@ah62.example.jp'') = []"
  by code_simp


end
